theory Spec2Isabelle
  imports Complex_Main
begin

section \<open>Data model of StimulusClampProtocol.cpp\<close>

text \<open>
  Doubles are modelled as reals and C++ \<open>int\<close> as \<open>int\<close>.  Where the source stores or
  compares a rounded difference of doubles (the durations of the epochs, the distances in
  \<open>findIndexesInRange\<close>), the function takes the rounding as a parameter, see the next
  section.  An \<open>Eigen::VectorXd\<close> is a \<open>real list\<close>, an \<open>Eigen::MatrixXd\<close> the list of its
  rows.  A \<open>std::map<QString, T>\<close> is the association list of its entries in key
  order.  A pointer to a unique epoch is the index of the object in the heap of unique
  epochs (a list: \<open>new Epoch\<close> appends to it).  An \<open>Eigen::SparseMatrix<double>\<close> is
  the list of its rows, each the list of its stored entries \<open>(column, value)\<close> by
  increasing column.

  \<open>Epoch\<close> is both the epoch of a simulation and the unique epoch that owns the model's
  matrices; of the latter, the fields the simulations read are kept.
\<close>

record Epoch =
  start :: real
  duration :: real
  firstPt :: int
  numPts :: int
  stimuli :: "(string \<times> real) list"
  uniqueEpoch :: "nat option"
  transitionRates :: "(nat \<times> real) list list"
  spectralEigenValues :: "real list"
  spectralMatrices :: "real list list list"

record MonteCarloEvent =
  state :: int
  ev_duration :: real

record RefData =
  waveform :: "real list"
  ref_firstPt :: int
  ref_numPts :: int
  ref_weight :: real

record Simulation =
  time :: "real list"
  endTime :: real
  weight :: "real list"
  sim_stimuli :: "(string \<times> real list) list"
  epochs :: "Epoch list"
  probability :: "real list list list"
  waveforms :: "(string \<times> real list) list list"
  events :: "MonteCarloEvent list list list"
  referenceData :: "(string \<times> RefData) list list"

section \<open>Rounding of doubles\<close>

text \<open>
  A difference of two doubles is stored rounded.  The functions that store such differences
  and compare them take the rounding as the parameter \<open>rnd\<close>: the identity under exact
  arithmetic, \<open>round_double\<close> for the doubles of the source.  \<open>round_double\<close> is IEEE 754
  round-to-nearest, ties to even, on the 53-bit significand: \<open>binade\<close> finds the exponent \<open>e\<close>
  with \<open>2^e \<le> |x| < 2^(e+1)\<close> (the fuel covers the exponents of a double), \<open>ulp\<close> is the
  spacing \<open>2^(e-52)\<close> of the doubles there (that of the subnormal numbers below \<open>2^-1022\<close>), and
  \<open>x\<close> is rounded to the nearest multiple of it.  Overflow to an infinity (a magnitude of
  \<open>2^1024\<close> or more) is not modelled.
\<close>

definition round_half_even :: "real \<Rightarrow> int" where
  "round_half_even m =
     (let f = \<lfloor>m\<rfloor> in
      if m - of_int f < 1 / 2 then f
      else if m - of_int f > 1 / 2 then f + 1
      else if even f then f else f + 1)"

fun binade :: "nat \<Rightarrow> real \<Rightarrow> int \<Rightarrow> int" where
  "binade 0 a e = e"
| "binade (Suc fuel) a e =
     (if a \<ge> 2 then binade fuel (a / 2) (e + 1)
      else if a < 1 then binade fuel (a * 2) (e - 1)
      else e)"

definition ulp :: "int \<Rightarrow> real" where
  "ulp e = (if e \<ge> 52 then 2 ^ nat (e - 52) else 1 / 2 ^ nat (52 - e))"

definition round_double :: "real \<Rightarrow> real" where
  "round_double x =
     (if x = 0 then 0
      else let u = ulp (max (binade 2200 \<bar>x\<bar> 0) (- 1022))
           in of_int (round_half_even (x / u)) * u)"

text \<open>The result is a multiple of the spacing, at most half a spacing away from \<open>x\<close>.\<close>

lemma round_half_even_nearest: "\<bar>of_int (round_half_even m) - m\<bar> \<le> 1 / 2"
  unfolding round_half_even_def Let_def by (simp; linarith)

lemma ulp_pos: "0 < ulp e"
  by (simp add: ulp_def)

lemma round_double_nearest:
  "\<bar>round_double x - x\<bar> \<le> ulp (max (binade 2200 \<bar>x\<bar> 0) (- 1022)) / 2"
proof (cases "x = 0")
  case True
  then show ?thesis using ulp_pos [of "max (binade 2200 \<bar>x\<bar> 0) (- 1022)"] by (simp add: round_double_def)
next
  case False
  define u where "u = ulp (max (binade 2200 \<bar>x\<bar> 0) (- 1022))"
  have u: "0 < u" unfolding u_def by (rule ulp_pos)
  have "round_double x - x = (of_int (round_half_even (x / u)) - x / u) * u"
    using False u by (simp add: round_double_def Let_def u_def [symmetric] algebra_simps)
  then have "\<bar>round_double x - x\<bar> = \<bar>of_int (round_half_even (x / u)) - x / u\<bar> * u"
    using u by (simp add: abs_mult)
  also have "\<dots> \<le> 1 / 2 * u"
    using round_half_even_nearest [of "x / u"] u by (intro mult_right_mono) simp_all
  finally show ?thesis by (simp add: u_def)
qed

text \<open>The doubles written \<open>0.1\<close>, \<open>0.2\<close> and \<open>0.9\<close>; integers of this size are doubles.\<close>

lemma round_double_examples:
  "round_double (1 / 10) = 3602879701896397 / 2 ^ 55"
  "round_double (2 / 10) = 3602879701896397 / 2 ^ 54"
  "round_double (9 / 10) = 8106479329266893 / 2 ^ 53"
  "round_double (- 3) = - 3"
  by code_simp+

section \<open>Simulation::findEpochsDiscretizedToSamplePoints\<close>

text \<open>The stimulus values at sample \<open>i\<close>: \<open>epoch.stimuli[kv.first] = kv.second[i]\<close> for
  every channel.\<close>

definition snapshot :: "(string \<times> real list) list \<Rightarrow> nat \<Rightarrow> (string \<times> real) list" where
  "snapshot stim i = map (\<lambda>kv. (fst kv, snd kv ! i)) stim"

text \<open>\<open>epochs.back().duration = t - epochs.back().start;
  epochs.back().numPts = i - epochs.back().firstPt\<close>: the duration stored is the rounded
  difference.\<close>

definition close_back :: "(real \<Rightarrow> real) \<Rightarrow> real \<Rightarrow> int \<Rightarrow> Epoch list \<Rightarrow> Epoch list" where
  "close_back rnd t i es =
     butlast es @
     [(last es)\<lparr>duration := rnd (t - start (last es)), numPts := i - firstPt (last es)\<rparr>]"

text \<open>The epoch pushed at sample \<open>i\<close>.  Its \<open>duration\<close>, \<open>numPts\<close> and \<open>uniqueEpoch\<close> are
  not yet assigned in the source; the first two are assigned before the function returns
  (placeholders \<open>0\<close> here), the pointer by \<open>StimulusClampProtocol::init\<close>.\<close>

definition open_epoch :: "Simulation \<Rightarrow> nat \<Rightarrow> Epoch" where
  "open_epoch sim i =
     \<lparr>start = time sim ! i, duration = 0, firstPt = int i, numPts = 0,
      stimuli = snapshot (sim_stimuli sim) i, uniqueEpoch = None,
      transitionRates = [], spectralEigenValues = [], spectralMatrices = []\<rparr>"

text \<open>One iteration of \<open>for(int i = 1; i < numPts; ++i)\<close>: the inner loop over the channels
  breaks at the first channel whose value changed.\<close>

definition epochs_step :: "(real \<Rightarrow> real) \<Rightarrow> Simulation \<Rightarrow> nat \<Rightarrow> Epoch list \<Rightarrow> Epoch list" where
  "epochs_step rnd sim i es =
     (if list_ex (\<lambda>kv. snd kv ! i \<noteq> snd kv ! (i - 1)) (sim_stimuli sim)
      then close_back rnd (time sim ! i) (int i) es @ [open_epoch sim i]
      else es)"

text \<open>Reading \<open>time[0]\<close> of an empty vector, or a stimulus vector shorter than \<open>time\<close>, is
  out of range in the source: \<open>None\<close>.\<close>

definition findEpochsDiscretizedToSamplePoints ::
  "(real \<Rightarrow> real) \<Rightarrow> Simulation \<Rightarrow> Simulation option" where
  "findEpochsDiscretizedToSamplePoints rnd sim =
     (if time sim = [] \<or> list_ex (\<lambda>kv. length (snd kv) < length (time sim)) (sim_stimuli sim)
      then None
      else Some (sim\<lparr>epochs :=
        close_back rnd (endTime sim) (int (length (time sim)))
          (fold (epochs_step rnd sim) [1..<length (time sim)] [open_epoch sim 0])\<rparr>))"

section \<open>Epochs partition the sample grid\<close>

text \<open>Loop invariant: all epochs but the last are closed; their sample counts add up to
  the first sample of the open one, each of their durations is the rounded distance to the
  start of the next epoch, and under exact arithmetic their durations add up to the start of
  the open one.\<close>

definition epochs_inv :: "(real \<Rightarrow> real) \<Rightarrow> real \<Rightarrow> Epoch list \<Rightarrow> bool" where
  "epochs_inv rnd t0 es \<longleftrightarrow>
     es \<noteq> [] \<and> firstPt (hd es) = 0 \<and> start (hd es) = t0 \<and>
     sum_list (map numPts (butlast es)) = firstPt (last es) \<and>
     ((\<forall>x. rnd x = x) \<longrightarrow> sum_list (map duration (butlast es)) = start (last es) - t0) \<and>
     (\<forall>k. Suc k < length es \<longrightarrow>
        firstPt (es ! Suc k) = firstPt (es ! k) + numPts (es ! k) \<and>
        duration (es ! k) = rnd (start (es ! Suc k) - start (es ! k)))"

lemma epochs_inv_init: "epochs_inv rnd (time sim ! 0) [open_epoch sim 0]"
  by (simp add: epochs_inv_def open_epoch_def)

lemma epochs_inv_push:
  assumes "epochs_inv rnd t0 es"
  shows "epochs_inv rnd t0 (close_back rnd t i es @ [e\<lparr>start := t, firstPt := i\<rparr>])"
proof -
  from assms have "es \<noteq> []" by (simp add: epochs_inv_def)
  then obtain cl cur where es: "es = cl @ [cur]"
    by (metis append_butlast_last_id)
  let ?cur = "cur\<lparr>duration := rnd (t - start cur), numPts := i - firstPt cur\<rparr>"
  let ?new = "e\<lparr>start := t, firstPt := i\<rparr>"
  have cb: "close_back rnd t i es = cl @ [?cur]"
    by (simp add: close_back_def es)
  have chain: "firstPt ((cl @ [?cur, ?new]) ! Suc k) =
      firstPt ((cl @ [?cur, ?new]) ! k) + numPts ((cl @ [?cur, ?new]) ! k) \<and>
    duration ((cl @ [?cur, ?new]) ! k) =
      rnd (start ((cl @ [?cur, ?new]) ! Suc k) - start ((cl @ [?cur, ?new]) ! k))"
    if k: "Suc k < length (cl @ [?cur, ?new])" for k
  proof (cases "Suc k < length es")
    case True
    with assms have old: "firstPt (es ! Suc k) = firstPt (es ! k) + numPts (es ! k)"
      "duration (es ! k) = rnd (start (es ! Suc k) - start (es ! k))"
      by (simp_all add: epochs_inv_def)
    from True have "k < length cl" by (simp add: es)
    then have a: "(cl @ [?cur, ?new]) ! k = cl ! k" and b: "es ! k = cl ! k"
      by (simp_all add: nth_append es)
    have c: "firstPt ((cl @ [?cur, ?new]) ! Suc k) = firstPt (es ! Suc k)"
      "start ((cl @ [?cur, ?new]) ! Suc k) = start (es ! Suc k)"
      using \<open>k < length cl\<close> by (cases "Suc k < length cl"; simp add: nth_append es)+
    show ?thesis using old a b c by simp
  next
    case False
    with k have "k = length cl" by (simp add: es)
    then show ?thesis by (simp add: nth_append)
  qed
  have hd_eq: "firstPt (hd (cl @ [?cur, ?new])) = 0 \<and> start (hd (cl @ [?cur, ?new])) = t0"
    using assms by (cases cl) (simp_all add: epochs_inv_def es)
  have sums: "sum_list (map numPts cl) = firstPt cur"
    "\<forall>x. rnd x = x \<Longrightarrow> sum_list (map duration cl) = start cur - t0"
    using assms by (simp_all add: epochs_inv_def es)
  have exact: "sum_list (map duration cl) + rnd (t - start cur) = t - t0" if "\<forall>x. rnd x = x"
    using sums(2) [OF that] that by simp
  show ?thesis
    unfolding cb epochs_inv_def using chain hd_eq sums(1) exact by (simp add: butlast_append)
qed

lemma epochs_inv_step:
  "epochs_inv rnd t0 es \<Longrightarrow> epochs_inv rnd t0 (epochs_step rnd sim i es)"
  using epochs_inv_push [of rnd t0 es "time sim ! i" "int i" "open_epoch sim i"]
  by (simp add: epochs_step_def open_epoch_def)

lemma epochs_inv_fold:
  "epochs_inv rnd t0 es \<Longrightarrow> epochs_inv rnd t0 (fold (epochs_step rnd sim) is es)"
  by (induction "is" arbitrary: es) (simp_all add: epochs_inv_step)

lemma epochs_inv_close:
  assumes "epochs_inv rnd t0 es"
  shows "close_back rnd t n es \<noteq> [] \<and>
    sum_list (map numPts (close_back rnd t n es)) = n \<and>
    firstPt (hd (close_back rnd t n es)) = 0 \<and>
    (\<forall>k. Suc k < length (close_back rnd t n es) \<longrightarrow>
       firstPt (close_back rnd t n es ! Suc k) =
         firstPt (close_back rnd t n es ! k) + numPts (close_back rnd t n es ! k)) \<and>
    start (hd (close_back rnd t n es)) = t0 \<and>
    (\<forall>k. Suc k < length (close_back rnd t n es) \<longrightarrow>
       duration (close_back rnd t n es ! k) =
         rnd (start (close_back rnd t n es ! Suc k) - start (close_back rnd t n es ! k))) \<and>
    duration (last (close_back rnd t n es)) = rnd (t - start (last (close_back rnd t n es))) \<and>
    ((\<forall>x. rnd x = x) \<longrightarrow> sum_list (map duration (close_back rnd t n es)) = t - t0)"
proof -
  from assms have "es \<noteq> []" by (simp add: epochs_inv_def)
  then obtain cl cur where es: "es = cl @ [cur]"
    by (metis append_butlast_last_id)
  let ?cur = "cur\<lparr>duration := rnd (t - start cur), numPts := n - firstPt cur\<rparr>"
  have cb: "close_back rnd t n es = cl @ [?cur]"
    by (simp add: close_back_def es)
  have chain: "firstPt ((cl @ [?cur]) ! Suc k) =
      firstPt ((cl @ [?cur]) ! k) + numPts ((cl @ [?cur]) ! k) \<and>
    duration ((cl @ [?cur]) ! k) = rnd (start ((cl @ [?cur]) ! Suc k) - start ((cl @ [?cur]) ! k))"
    if k: "Suc k < length (cl @ [?cur])" for k
  proof -
    from k have kl: "k < length cl" by simp
    from k assms have old: "firstPt (es ! Suc k) = firstPt (es ! k) + numPts (es ! k)"
      "duration (es ! k) = rnd (start (es ! Suc k) - start (es ! k))"
      by (simp_all add: epochs_inv_def es)
    have c: "firstPt ((cl @ [?cur]) ! Suc k) = firstPt (es ! Suc k)"
      "start ((cl @ [?cur]) ! Suc k) = start (es ! Suc k)"
      using kl by (cases "Suc k < length cl"; simp add: nth_append es)+
    show ?thesis using old c kl by (simp add: nth_append es)
  qed
  have hd_eq: "firstPt (hd (cl @ [?cur])) = 0 \<and> start (hd (cl @ [?cur])) = t0"
    using assms by (cases cl) (simp_all add: epochs_inv_def es)
  have sums: "sum_list (map numPts cl) = firstPt cur"
    "\<forall>x. rnd x = x \<Longrightarrow> sum_list (map duration cl) = start cur - t0"
    using assms by (simp_all add: epochs_inv_def es)
  have exact: "sum_list (map duration cl) + rnd (t - start cur) = t - t0" if "\<forall>x. rnd x = x"
    using sums(2) [OF that] that by simp
  show ?thesis
    unfolding cb using chain hd_eq sums(1) exact by simp
qed

text \<open>
  C1 (as stated, fails).  The durations are stored as doubles.  On the samples \<open>0\<close>, \<open>0.2\<close>,
  \<open>0.9\<close> (the doubles so written) with \<open>endTime = 1\<close> and a stimulus that changes at every
  sample, the three stored durations are \<open>0.2\<close>, the double \<open>0.7\<close> (the difference
  \<open>0.9 - 0.2\<close> lies midway between two doubles and is rounded down) and \<open>1 - 0.9\<close>.  Their sum
  is \<open>1 - 2^-54\<close>, and \<open>1 - 2^-53\<close> when they are added as doubles, not
  \<open>endTime - time[0] = 1\<close>.
\<close>

definition sim_rounded :: Simulation where
  "sim_rounded =
     \<lparr>time = [0, round_double (2 / 10), round_double (9 / 10)], endTime = 1, weight = [1, 1, 1],
      sim_stimuli = [(''V'', [0, 1, 2])], epochs = [], probability = [], waveforms = [],
      events = [], referenceData = []\<rparr>"

theorem findEpochs_durations_rounded:
  "map_option (\<lambda>sim'. map duration (epochs sim'))
     (findEpochsDiscretizedToSamplePoints round_double sim_rounded) =
     Some [3602879701896397 / 2 ^ 54, 6305039478318694 / 2 ^ 53, 900719925474099 / 2 ^ 53] \<and>
   sum_list [3602879701896397 / 2 ^ 54, 6305039478318694 / 2 ^ 53, 900719925474099 / 2 ^ 53 :: real] =
     1 - 1 / 2 ^ 54 \<and>
   round_double (round_double (3602879701896397 / 2 ^ 54 + 6305039478318694 / 2 ^ 53) +
     900719925474099 / 2 ^ 53) = 1 - 1 / 2 ^ 53 \<and>
   endTime sim_rounded - time sim_rounded ! 0 = 1 \<and>
   map_option (\<lambda>sim'. sum_list (map duration (epochs sim')) = endTime sim' - time sim' ! 0)
     (findEpochsDiscretizedToSamplePoints round_double sim_rounded) = Some False"
  by code_simp

text \<open>
  C1 (amended).  For a simulation with \<open>N \<ge> 1\<close> samples (every stimulus vector as long as
  \<open>time\<close>), \<open>findEpochsDiscretizedToSamplePoints\<close> returns, and its epoch list partitions
  the sample grid: the \<open>numPts\<close> add up to \<open>N\<close>, the first epoch has \<open>firstPt = 0\<close>, and every
  later epoch starts at the previous epoch's \<open>firstPt + numPts\<close>.  The first epoch starts at
  \<open>time[0]\<close>, and the duration stored in an epoch is the rounded difference between the
  start of the next epoch (\<open>endTime\<close> for the last epoch) and its own start.  Under exact
  arithmetic the durations add up to \<open>endTime - time[0]\<close>.
\<close>

theorem findEpochs_partition:
  assumes "time sim \<noteq> []"
    and "\<forall>kv \<in> set (sim_stimuli sim). length (snd kv) = length (time sim)"
  shows "\<exists>sim'. findEpochsDiscretizedToSamplePoints rnd sim = Some sim' \<and>
    epochs sim' \<noteq> [] \<and>
    sum_list (map numPts (epochs sim')) = int (length (time sim)) \<and>
    firstPt (hd (epochs sim')) = 0 \<and>
    (\<forall>k. Suc k < length (epochs sim') \<longrightarrow>
       firstPt (epochs sim' ! Suc k) = firstPt (epochs sim' ! k) + numPts (epochs sim' ! k)) \<and>
    start (hd (epochs sim')) = time sim ! 0 \<and>
    (\<forall>k. Suc k < length (epochs sim') \<longrightarrow>
       duration (epochs sim' ! k) = rnd (start (epochs sim' ! Suc k) - start (epochs sim' ! k))) \<and>
    duration (last (epochs sim')) = rnd (endTime sim - start (last (epochs sim'))) \<and>
    ((\<forall>x. rnd x = x) \<longrightarrow>
       sum_list (map duration (epochs sim')) = endTime sim - time sim ! 0)"
proof -
  define es where "es = fold (epochs_step rnd sim) [1..<length (time sim)] [open_epoch sim 0]"
  have ok: "\<not> list_ex (\<lambda>kv. length (snd kv) < length (time sim)) (sim_stimuli sim)"
    using assms(2) by (auto simp: list_ex_iff)
  have "epochs_inv rnd (time sim ! 0) es"
    unfolding es_def by (rule epochs_inv_fold) (rule epochs_inv_init)
  note closed = epochs_inv_close [OF this, of "endTime sim" "int (length (time sim))"]
  have res: "findEpochsDiscretizedToSamplePoints rnd sim =
      Some (sim\<lparr>epochs := close_back rnd (endTime sim) (int (length (time sim))) es\<rparr>)"
    unfolding es_def using assms(1) ok by (simp add: findEpochsDiscretizedToSamplePoints_def)
  from closed show ?thesis
    by (simp add: res)
qed

definition sim_example :: Simulation where
  "sim_example = \<lparr>time = [0, 1, 2], endTime = 3, weight = [1, 1, 1],
     sim_stimuli = [(''V'', [0, 5, 5])], epochs = [], probability = [], waveforms = [],
     events = [], referenceData = []\<rparr>"

theorem findEpochs_partition_witness:
  "time sim_example \<noteq> [] \<and>
   list_all (\<lambda>kv. length (snd kv) = length (time sim_example)) (sim_stimuli sim_example) \<and>
   (\<exists>sim'. findEpochsDiscretizedToSamplePoints (\<lambda>x. x) sim_example = Some sim' \<and>
      map numPts (epochs sim') = [1, 2] \<and> map duration (epochs sim') = [1, 2] \<and>
      sum_list (map numPts (epochs sim')) = 3 \<and>
      sum_list (map duration (epochs sim')) = 3)"
  using findEpochs_partition [where sim = sim_example and rnd = "\<lambda>x. x"]
  by (simp add: findEpochsDiscretizedToSamplePoints_def sim_example_def epochs_step_def
      close_back_def open_epoch_def snapshot_def upt_rec)

section \<open>findIndexesInRange\<close>

text \<open>\<open>std::numeric_limits<double>::epsilon()\<close>.\<close>

definition dbl_epsilon :: real where
  "dbl_epsilon = 1 / 2 ^ 52"

text \<open>\<open>minCoeff(&index)\<close>: the visitor starts from coefficient 0 and moves to a later
  coefficient only when it is strictly smaller, so the index of the first minimum is
  returned.  \<open>closestIndex rnd tv x\<close> is \<open>(time.array() - x).abs().minCoeff(&closestIndex)\<close>:
  the distances compared are the rounded differences (on an empty vector the source reads
  out of range; \<open>findIndexesInRange\<close> returns \<open>None\<close> there).\<close>

fun minCoeff_scan :: "real list \<Rightarrow> nat \<Rightarrow> real \<Rightarrow> nat \<Rightarrow> nat" where
  "minCoeff_scan [] i best bi = bi"
| "minCoeff_scan (x # xs) i best bi =
     (if x < best then minCoeff_scan xs (Suc i) x i else minCoeff_scan xs (Suc i) best bi)"

definition closestIndex :: "(real \<Rightarrow> real) \<Rightarrow> real list \<Rightarrow> real \<Rightarrow> nat" where
  "closestIndex rnd tv x =
     (case map (\<lambda>t. \<bar>rnd (t - x)\<bar>) tv of [] \<Rightarrow> 0 | d # ds \<Rightarrow> minCoeff_scan ds 1 d 0)"

text \<open>The closest index, advanced by one when the sample lies below the (rounded)
  \<open>x - eps\<close>: the source computes \<open>firstPt\<close> from \<open>start\<close> and \<open>endPt\<close> from \<open>stop\<close> by these
  same lines.\<close>

definition rangeIndex :: "(real \<Rightarrow> real) \<Rightarrow> real \<Rightarrow> real list \<Rightarrow> real \<Rightarrow> nat" where
  "rangeIndex rnd eps tv x =
     (let c = closestIndex rnd tv x in if tv ! c < rnd (x - eps) then c + 1 else c)"

definition effective_epsilon :: "real \<Rightarrow> real" where
  "effective_epsilon epsilon = (if epsilon = 0 then dbl_epsilon * 5 else epsilon)"

text \<open>The result is the pair \<open>(*firstPt, *numPts)\<close>: \<open>*numPts\<close> keeps its initial \<open>0\<close> when
  \<open>*firstPt\<close> has left the vector.\<close>

definition findIndexesInRange ::
  "(real \<Rightarrow> real) \<Rightarrow> real list \<Rightarrow> real \<Rightarrow> real \<Rightarrow> real \<Rightarrow> (int \<times> int) option" where
  "findIndexesInRange rnd tv startT stopT epsilon =
     (if tv = [] then None
      else
        let eps = effective_epsilon epsilon;
            fp = rangeIndex rnd eps tv startT
        in if fp < length tv
           then Some (int fp, int (rangeIndex rnd eps tv stopT) - int fp)
           else Some (int fp, 0))"


lemma minCoeff_scan_spec:
  assumes "bi < length pre" "i = length pre" "best = pre ! bi"
    and "\<forall>k < length pre. pre ! bi \<le> pre ! k"
    and "\<forall>k < bi. pre ! bi < pre ! k"
  shows "minCoeff_scan ds i best bi < length (pre @ ds) \<and>
    (\<forall>k < length (pre @ ds). (pre @ ds) ! minCoeff_scan ds i best bi \<le> (pre @ ds) ! k) \<and>
    (\<forall>k < minCoeff_scan ds i best bi. (pre @ ds) ! minCoeff_scan ds i best bi < (pre @ ds) ! k)"
  using assms
proof (induction ds arbitrary: pre i best bi)
  case Nil
  then show ?case by simp
next
  case (Cons x xs)
  show ?case
  proof (cases "x < best")
    case True
    have "minCoeff_scan xs (Suc i) x i < length ((pre @ [x]) @ xs) \<and>
      (\<forall>k < length ((pre @ [x]) @ xs). ((pre @ [x]) @ xs) ! minCoeff_scan xs (Suc i) x i \<le> ((pre @ [x]) @ xs) ! k) \<and>
      (\<forall>k < minCoeff_scan xs (Suc i) x i. ((pre @ [x]) @ xs) ! minCoeff_scan xs (Suc i) x i < ((pre @ [x]) @ xs) ! k)"
    proof (rule Cons.IH)
      show "i < length (pre @ [x])" using Cons.prems by simp
      show "Suc i = length (pre @ [x])" using Cons.prems by simp
      show "x = (pre @ [x]) ! i" using Cons.prems by simp
      show "\<forall>k<length (pre @ [x]). (pre @ [x]) ! i \<le> (pre @ [x]) ! k"
        using Cons.prems True by (auto simp: nth_append less_Suc_eq) 
      show "\<forall>k<i. (pre @ [x]) ! i < (pre @ [x]) ! k"
        using Cons.prems True by (auto simp: nth_append) 
    qed
    with True show ?thesis by simp
  next
    case False
    have "minCoeff_scan xs (Suc i) best bi < length ((pre @ [x]) @ xs) \<and>
      (\<forall>k < length ((pre @ [x]) @ xs). ((pre @ [x]) @ xs) ! minCoeff_scan xs (Suc i) best bi \<le> ((pre @ [x]) @ xs) ! k) \<and>
      (\<forall>k < minCoeff_scan xs (Suc i) best bi. ((pre @ [x]) @ xs) ! minCoeff_scan xs (Suc i) best bi < ((pre @ [x]) @ xs) ! k)"
    proof (rule Cons.IH)
      show "bi < length (pre @ [x])" using Cons.prems by simp
      show "Suc i = length (pre @ [x])" using Cons.prems by simp
      show "best = (pre @ [x]) ! bi" using Cons.prems by (simp add: nth_append)
      show "\<forall>k<length (pre @ [x]). (pre @ [x]) ! bi \<le> (pre @ [x]) ! k"
        using Cons.prems False by (auto simp: nth_append less_Suc_eq)
      show "\<forall>k<bi. (pre @ [x]) ! bi < (pre @ [x]) ! k"
        using Cons.prems False by (auto simp: nth_append)
    qed
    with False show ?thesis by simp
  qed
qed

lemma closestIndex_spec:
  assumes "tv \<noteq> []"
  shows "closestIndex rnd tv x < length tv"
    and "k < length tv \<Longrightarrow> \<bar>rnd (tv ! closestIndex rnd tv x - x)\<bar> \<le> \<bar>rnd (tv ! k - x)\<bar>"
    and "k < closestIndex rnd tv x \<Longrightarrow>
      \<bar>rnd (tv ! closestIndex rnd tv x - x)\<bar> < \<bar>rnd (tv ! k - x)\<bar>"
proof -
  from assms obtain t ts where tv: "tv = t # ts" by (cases tv) auto
  define ds where "ds = map (\<lambda>t. \<bar>rnd (t - x)\<bar>) ts"
  define d where "d = \<bar>rnd (t - x)\<bar>"
  define r where "r = minCoeff_scan ds 1 d 0"
  have r: "closestIndex rnd tv x = r" by (simp add: closestIndex_def tv r_def ds_def d_def)
  have full: "[d] @ ds = map (\<lambda>t. \<bar>rnd (t - x)\<bar>) tv" by (simp add: tv ds_def d_def)
  have spec: "r < length ([d] @ ds) \<and>
    (\<forall>k < length ([d] @ ds). ([d] @ ds) ! r \<le> ([d] @ ds) ! k) \<and>
    (\<forall>k < r. ([d] @ ds) ! r < ([d] @ ds) ! k)"
    unfolding r_def by (rule minCoeff_scan_spec) simp_all
  have len: "length ([d] @ ds) = length tv" by (simp add: tv ds_def)
  from spec have lt: "r < length tv" unfolding len by blast
  then show "closestIndex rnd tv x < length tv" by (simp add: r)
  have nth: "([d] @ ds) ! j = \<bar>rnd (tv ! j - x)\<bar>" if "j < length tv" for j
    unfolding full using that by simp
  show "\<bar>rnd (tv ! closestIndex rnd tv x - x)\<bar> \<le> \<bar>rnd (tv ! k - x)\<bar>" if k: "k < length tv"
  proof -
    from spec k have "([d] @ ds) ! r \<le> ([d] @ ds) ! k" unfolding len by blast
    then show ?thesis using nth [OF k] nth [OF lt] by (simp add: r)
  qed
  show "\<bar>rnd (tv ! closestIndex rnd tv x - x)\<bar> < \<bar>rnd (tv ! k - x)\<bar>"
    if k: "k < closestIndex rnd tv x"
  proof -
    from k have kr: "k < r" by (simp add: r)
    with lt have kl: "k < length tv" by simp
    from spec kr have "([d] @ ds) ! r < ([d] @ ds) ! k" by blast
    then show ?thesis using nth [OF kl] nth [OF lt] by (simp add: r)
  qed
qed

text \<open>Under exact arithmetic the closest index, and with it the range index, grows with the
  point on a sorted vector.\<close>

lemma closestIndex_mono:
  assumes "tv \<noteq> []" "sorted tv" "x \<le> y"
  shows "closestIndex (\<lambda>x. x) tv x \<le> closestIndex (\<lambda>x. x) tv y"
proof (rule ccontr)
  let ?i = "closestIndex (\<lambda>x. x) tv x" and ?j = "closestIndex (\<lambda>x. x) tv y"
  assume "\<not> ?i \<le> ?j"
  then have ji: "?j < ?i" by simp
  have i: "?i < length tv" by (rule closestIndex_spec(1) [OF assms(1)])
  from ji i have le: "tv ! ?j \<le> tv ! ?i"
    using assms(2) by (simp add: sorted_iff_nth_mono)
  have 1: "\<bar>tv ! ?i - x\<bar> < \<bar>tv ! ?j - x\<bar>"
    using closestIndex_spec(3) [OF assms(1) ji] by simp
  have 2: "\<bar>tv ! ?j - y\<bar> \<le> \<bar>tv ! ?i - y\<bar>"
    using closestIndex_spec(2) [OF assms(1) i, of "\<lambda>x. x" y] by simp
  from le 1 2 assms(3) show False by linarith
qed

lemma rangeIndex_mono:
  assumes "tv \<noteq> []" "sorted tv" "x \<le> y"
  shows "rangeIndex (\<lambda>x. x) eps tv x \<le> rangeIndex (\<lambda>x. x) eps tv y"
proof -
  let ?i = "closestIndex (\<lambda>x. x) tv x" and ?j = "closestIndex (\<lambda>x. x) tv y"
  have ij: "?i \<le> ?j" by (rule closestIndex_mono [OF assms])
  show ?thesis
  proof (cases "?i = ?j")
    case True
    with assms(3) show ?thesis by (auto simp: rangeIndex_def Let_def)
  next
    case False
    with ij show ?thesis by (auto simp: rangeIndex_def Let_def)
  qed
qed

lemma rangeIndex_le_length: "tv \<noteq> [] \<Longrightarrow> rangeIndex rnd eps tv x \<le> length tv"
  using closestIndex_spec(1) [of tv rnd x] by (auto simp: rangeIndex_def Let_def)

text \<open>
  C5 (as stated, fails).  With \<open>stop < start\<close> the source returns \<open>endPt - firstPt\<close>
  as it is, without clamping at \<open>0\<close>: on the grid \<open>[0, 1, 2, 3]\<close> with \<open>start = 2\<close>,
  \<open>stop = 1\<close> it returns \<open>numPts = -1\<close> (in doubles, and under exact arithmetic).
\<close>

theorem findIndexesInRange_negative_numPts:
  "findIndexesInRange round_double [0, 1, 2, 3] 2 1 0 = Some (2, - 1) \<and>
   findIndexesInRange (\<lambda>x. x) [0, 1, 2, 3] 2 1 0 = Some (2, - 1)"
  by code_simp

text \<open>When \<open>start\<close> lies beyond the vector, \<open>firstPt\<close> is its length and \<open>numPts\<close> is \<open>0\<close>,
  whatever \<open>stop\<close> is.\<close>

lemma findIndexesInRange_beyond:
  "findIndexesInRange round_double [0, 1, 2, 3] 5 1 0 = Some (4, 0)"
  by code_simp

text \<open>
  In doubles \<open>start \<le> stop\<close> does not make \<open>numPts\<close> non-negative.  On the samples \<open>0\<close>,
  \<open>3 * 2^-55\<close>, \<open>5 * 2^-55\<close> (three doubles) with \<open>start = 1\<close> and \<open>stop = 4\<close>, the distances to
  \<open>start\<close> round to \<open>1\<close>, \<open>1 - 2^-53\<close>, \<open>1 - 2^-53\<close> and the distances to \<open>stop\<close> all round to
  \<open>4\<close>: the second sample is the closest one to \<open>start\<close>, the first the closest one to
  \<open>stop\<close>, and \<open>numPts = 1 - 2\<close>.
\<close>

lemma findIndexesInRange_rounded_distances:
  "findIndexesInRange round_double [0, 3 / 2 ^ 55, 5 / 2 ^ 55] 1 4 0 = Some (2, - 1) \<and>
   map (\<lambda>t. \<bar>round_double (t - 1)\<bar>) [0, 3 / 2 ^ 55, 5 / 2 ^ 55] =
     [1, 1 - 1 / 2 ^ 53, 1 - 1 / 2 ^ 53] \<and>
   map (\<lambda>t. \<bar>round_double (t - 4)\<bar>) [0, 3 / 2 ^ 55, 5 / 2 ^ 55] = [4, 4, 4]"
  by code_simp

text \<open>
  C5 (amended).  For a non-empty time vector and any \<open>start\<close>, \<open>stop\<close> and \<open>epsilon\<close>: let \<open>c1\<close>
  be the first index at which the computed distance \<open>|time[i] - start|\<close> is smallest, and
  \<open>firstPt\<close> be \<open>c1\<close>, advanced by one when \<open>time[c1] < start - epsilon\<close> (\<open>epsilon = 0\<close> stands
  for \<open>5 * DBL_EPSILON\<close>); let \<open>c2\<close> and \<open>endPt\<close> be the same for \<open>stop\<close>.  Then
  \<open>findIndexesInRange\<close> returns \<open>firstPt\<close> with \<open>numPts = endPt - firstPt\<close>, not clamped, when
  \<open>firstPt\<close> is inside the vector, and with \<open>numPts = 0\<close> when it is not.  Under exact
  arithmetic, on a strictly increasing vector with \<open>start \<le> stop\<close>, \<open>firstPt \<le> endPt\<close>, so that
  there \<open>numPts = max(0, endPt - firstPt)\<close> and \<open>numPts\<close> is not negative.
\<close>

theorem findIndexesInRange_unclamped:
  assumes "tv \<noteq> []"
  shows "let eps = effective_epsilon epsilon;
             c1 = closestIndex rnd tv startT;
             c2 = closestIndex rnd tv stopT;
             fp = (if tv ! c1 < rnd (startT - eps) then c1 + 1 else c1);
             ep = (if tv ! c2 < rnd (stopT - eps) then c2 + 1 else c2)
         in c1 < length tv \<and> c2 < length tv \<and>
            (\<forall>k < length tv. \<bar>rnd (tv ! c1 - startT)\<bar> \<le> \<bar>rnd (tv ! k - startT)\<bar>) \<and>
            (\<forall>k < c1. \<bar>rnd (tv ! c1 - startT)\<bar> < \<bar>rnd (tv ! k - startT)\<bar>) \<and>
            (\<forall>k < length tv. \<bar>rnd (tv ! c2 - stopT)\<bar> \<le> \<bar>rnd (tv ! k - stopT)\<bar>) \<and>
            (\<forall>k < c2. \<bar>rnd (tv ! c2 - stopT)\<bar> < \<bar>rnd (tv ! k - stopT)\<bar>) \<and>
            findIndexesInRange rnd tv startT stopT epsilon =
              Some (int fp, if fp < length tv then int ep - int fp else 0) \<and>
            ((\<forall>x. rnd x = x) \<and> sorted_wrt (<) tv \<and> startT \<le> stopT \<longrightarrow>
               fp \<le> ep \<and>
               findIndexesInRange rnd tv startT stopT epsilon =
                 Some (int fp, max 0 (int ep - int fp)) \<and>
               0 \<le> snd (the (findIndexesInRange rnd tv startT stopT epsilon)))"
proof -
  define eps where "eps = effective_epsilon epsilon"
  define c1 where "c1 = closestIndex rnd tv startT"
  define c2 where "c2 = closestIndex rnd tv stopT"
  define fp where "fp = (if tv ! c1 < rnd (startT - eps) then c1 + 1 else c1)"
  define ep where "ep = (if tv ! c2 < rnd (stopT - eps) then c2 + 1 else c2)"
  have fp: "rangeIndex rnd eps tv startT = fp" and ep: "rangeIndex rnd eps tv stopT = ep"
    by (simp_all add: rangeIndex_def Let_def fp_def ep_def c1_def c2_def)
  have c1: "c1 < length tv" and c2: "c2 < length tv"
    unfolding c1_def c2_def by (rule closestIndex_spec(1) [OF assms])+
  have m1: "\<forall>k < length tv. \<bar>rnd (tv ! c1 - startT)\<bar> \<le> \<bar>rnd (tv ! k - startT)\<bar>"
    and f1: "\<forall>k < c1. \<bar>rnd (tv ! c1 - startT)\<bar> < \<bar>rnd (tv ! k - startT)\<bar>"
    unfolding c1_def using closestIndex_spec(2,3) [OF assms] by blast+
  have m2: "\<forall>k < length tv. \<bar>rnd (tv ! c2 - stopT)\<bar> \<le> \<bar>rnd (tv ! k - stopT)\<bar>"
    and f2: "\<forall>k < c2. \<bar>rnd (tv ! c2 - stopT)\<bar> < \<bar>rnd (tv ! k - stopT)\<bar>"
    unfolding c2_def using closestIndex_spec(2,3) [OF assms] by blast+
  have res: "findIndexesInRange rnd tv startT stopT epsilon =
      Some (int fp, if fp < length tv then int ep - int fp else 0)"
    using assms by (simp add: findIndexesInRange_def Let_def eps_def [symmetric] fp ep)
  have exact: "fp \<le> ep \<and>
      findIndexesInRange rnd tv startT stopT epsilon = Some (int fp, max 0 (int ep - int fp)) \<and>
      0 \<le> snd (the (findIndexesInRange rnd tv startT stopT epsilon))"
    if id: "\<forall>x. rnd x = x" and sw: "sorted_wrt (<) tv" and le: "startT \<le> stopT"
  proof -
    from id have rnd: "rnd = (\<lambda>x. x)" by (simp add: fun_eq_iff)
    have s: "sorted tv" using sw by (rule strict_sorted_imp_sorted)
    have mono: "fp \<le> ep"
      using rangeIndex_mono [OF assms s le, of eps] fp ep by (simp add: rnd)
    have "ep \<le> length tv"
      using rangeIndex_le_length [OF assms, of rnd eps stopT] ep by simp
    with mono show ?thesis unfolding res by auto
  qed
  show ?thesis
    unfolding Let_def eps_def [symmetric] c1_def [symmetric] c2_def [symmetric]
      fp_def [symmetric] ep_def [symmetric]
    using c1 c2 m1 f1 m2 f2 res exact by blast
qed

theorem findIndexesInRange_unclamped_witness:
  "[0, 1, 2, 3] \<noteq> ([] :: real list) \<and> sorted_wrt (<) [0, 1, 2, 3 :: real] \<and> (1 :: real) \<le> 2 \<and>
   closestIndex (\<lambda>x. x) [0, 1, 2, 3] 1 = 1 \<and> closestIndex (\<lambda>x. x) [0, 1, 2, 3] 2 = 2 \<and>
   findIndexesInRange (\<lambda>x. x) [0, 1, 2, 3] 1 2 0 = Some (1, 1) \<and>
   0 \<le> snd (the (findIndexesInRange (\<lambda>x. x) [0, 1, 2, 3] 1 2 0))"
  using findIndexesInRange_unclamped [of "[0, 1, 2, 3]" 0 "\<lambda>x. x" 1 2]
  by (simp add: findIndexesInRange_def rangeIndex_def closestIndex_def effective_epsilon_def
      dbl_epsilon_def)

section \<open>sampleArray\<close>

text \<open>\<open>di\<close> and \<open>diref\<close>: \<open>+1\<close> for an increasing array, \<open>-1\<close> for a decreasing one.\<close>

definition dir :: "bool \<Rightarrow> int" where
  "dir increasing = (if increasing then 1 else - 1)"

text \<open>
  The \<open>while\<close> loop, with the state \<open>(i, iref, y, *firstPt)\<close>; it returns \<open>y\<close>,
  \<open>*firstPt\<close> and the final \<open>i\<close>.  Every iteration advances \<open>i\<close> or \<open>iref\<close>, so the loop
  terminates.  The interpolation divides by \<open>dx = xref[jref] - xref[iref]\<close>; \<open>dx = 0\<close> is the
  result \<open>None\<close>.
\<close>

function sampleArray_loop ::
  "real list \<Rightarrow> real list \<Rightarrow> int \<Rightarrow> real list \<Rightarrow> int \<Rightarrow> real \<Rightarrow> real \<Rightarrow> bool \<Rightarrow> bool \<Rightarrow>
   int \<Rightarrow> int \<Rightarrow> real list \<Rightarrow> int \<Rightarrow> (real list \<times> int \<times> int) option" where
  "sampleArray_loop xref yref nref x n x0 epsilon isIncreasing isRefIncreasing i iref y fp =
     (if 0 \<le> i \<and> i < n \<and> 0 \<le> iref \<and> iref < nref then
        if x ! nat i < xref ! nat iref - x0 - epsilon then
          sampleArray_loop xref yref nref x n x0 epsilon isIncreasing isRefIncreasing
            (i + dir isIncreasing) iref y fp
        else if \<bar>x ! nat i - (xref ! nat iref - x0)\<bar> < epsilon then
          sampleArray_loop xref yref nref x n x0 epsilon isIncreasing isRefIncreasing
            (i + dir isIncreasing) (iref + dir isRefIncreasing)
            (y[nat i := yref ! nat iref]) (if fp = - 1 then i else fp)
        else if 0 \<le> iref + dir isRefIncreasing \<and> iref + dir isRefIncreasing < nref \<and>
                xref ! nat (iref + dir isRefIncreasing) - x0 > x ! nat i then
          if xref ! nat (iref + dir isRefIncreasing) - xref ! nat iref = 0 then None
          else
            sampleArray_loop xref yref nref x n x0 epsilon isIncreasing isRefIncreasing
              (i + dir isIncreasing) (iref + dir isRefIncreasing)
              (y[nat i := yref ! nat iref +
                 ((yref ! nat (iref + dir isRefIncreasing) - yref ! nat iref) /
                  (xref ! nat (iref + dir isRefIncreasing) - xref ! nat iref)) *
                 (x ! nat i - (xref ! nat iref - x0))])
              (if fp = - 1 then i else fp)
        else
          sampleArray_loop xref yref nref x n x0 epsilon isIncreasing isRefIncreasing
            i (iref + dir isRefIncreasing) y fp
      else Some (y, fp, i))"
  by pat_completeness auto
termination
  by (relation "measure (\<lambda>(xref, yref, nref, x, n, x0, epsilon, inc, refinc, i, iref, y, fp).
        nat (if inc then n - i else i + 1) + nat (if refinc then nref - iref else iref + 1))")
     (auto simp: dir_def; linarith)+

declare sampleArray_loop.simps [simp del]

text \<open>
  The arrays are pointers with the counts \<open>nref\<close> and \<open>n\<close> in the source; a count beyond
  the array is an out-of-range read (\<open>None\<close>).  The result is \<open>(y, *firstPt, *numPts)\<close>.
\<close>

definition sampleArray ::
  "real list \<Rightarrow> real list \<Rightarrow> int \<Rightarrow> real list \<Rightarrow> real list \<Rightarrow> int \<Rightarrow> real \<Rightarrow> real \<Rightarrow>
   (real list \<times> int \<times> int) option" where
  "sampleArray xref yref nref x y n x0 epsilon =
     (if int (length xref) < nref \<or> int (length yref) < nref \<or> int (length x) < n \<or> int (length y) < n
      then None
      else
        let eps = effective_epsilon epsilon;
            isIncreasing = (\<not> (n \<ge> 2 \<and> x ! 1 - x ! 0 < 0));
            isRefIncreasing = (\<not> (nref \<ge> 2 \<and> xref ! 1 - xref ! 0 < 0));
            i = (if isIncreasing then 0 else n - 1);
            iref = (if isRefIncreasing then 0 else nref - 1)
        in case sampleArray_loop xref yref nref x n x0 eps isIncreasing isRefIncreasing i iref y (- 1) of
             None \<Rightarrow> None
           | Some (y', fp, i') \<Rightarrow>
               if fp \<noteq> - 1 then
                 (if isIncreasing then Some (y', fp, i' - fp) else Some (y', i' + 1, fp - i'))
               else Some (y', - 1, 0))"


subsection \<open>Round trip on the reference's own grid\<close>

lemma sampleArray_loop_same_grid:
  assumes "length x = N" and "length yref = N" and "length y = N" and "0 < eps" and "k \<le> N"
  shows "sampleArray_loop x yref (int N) x (int N) 0 eps True True (int k) (int k) y fp =
    Some (take k y @ drop k yref, (if fp = - 1 \<and> k < N then int k else fp), int N)"
  using assms(3,5)
proof (induction "N - k" arbitrary: k y fp)
  case 0
  then have "k = N" by simp
  then show ?case
    using assms(2) "0.prems" by (subst sampleArray_loop.simps) simp
next
  case (Suc m)
  then have k: "k < N" by simp
  have step: "sampleArray_loop x yref (int N) x (int N) 0 eps True True (int k) (int k) y fp =
    sampleArray_loop x yref (int N) x (int N) 0 eps True True (int (Suc k)) (int (Suc k))
      (y[k := yref ! k]) (if fp = - 1 then int k else fp)"
    using k assms(4) by (subst sampleArray_loop.simps) (simp add: dir_def add.commute)
  have IH: "sampleArray_loop x yref (int N) x (int N) 0 eps True True (int (Suc k)) (int (Suc k))
      (y[k := yref ! k]) (if fp = - 1 then int k else fp) =
    Some (take (Suc k) (y[k := yref ! k]) @ drop (Suc k) yref,
      (if (if fp = - 1 then int k else fp) = - 1 \<and> Suc k < N then int (Suc k)
       else (if fp = - 1 then int k else fp)), int N)"
    using Suc.hyps(2) Suc.prems k by (intro Suc.hyps(1)) simp_all
  have lists: "take (Suc k) (y[k := yref ! k]) @ drop (Suc k) yref = take k y @ drop k yref"
    using k Suc.prems(1) assms(2)
    by (simp add: take_Suc_conv_app_nth Cons_nth_drop_Suc)
  show ?case
    unfolding step IH lists using k by simp
qed

text \<open>
  C8.  For a non-empty strictly increasing \<open>x\<close> of length \<open>N\<close>, \<open>xref\<close> identical to \<open>x\<close>,
  \<open>yref\<close> of the same length, \<open>x0 = 0\<close> and a positive \<open>epsilon\<close> (in particular one below
  the minimum grid spacing), \<open>sampleArray\<close> returns \<open>firstPt = 0\<close>, \<open>numPts = N\<close> and
  \<open>y = yref\<close>.
\<close>

theorem sampleArray_round_trip:
  assumes "x \<noteq> []" and "sorted_wrt (<) x" and "length yref = length x"
    and "length y = length x" and "0 < epsilon"
  shows "sampleArray x yref (int (length x)) x y (int (length x)) 0 epsilon =
    Some (yref, 0, int (length x))"
proof -
  let ?N = "length x"
  have inc: "\<not> (int ?N \<ge> 2 \<and> x ! 1 - x ! 0 < 0)"
  proof
    assume a: "int ?N \<ge> 2 \<and> x ! 1 - x ! 0 < 0"
    then have "x ! 0 < x ! 1"
      using assms(2) by (simp add: sorted_wrt_iff_nth_less)
    with a show False by simp
  qed
  have eps: "effective_epsilon epsilon = epsilon" "0 < effective_epsilon epsilon"
    using assms(5) by (simp_all add: effective_epsilon_def)
  have loop: "sampleArray_loop x yref (int ?N) x (int ?N) 0 (effective_epsilon epsilon) True True 0 0 y (- 1) =
    Some (yref, 0, int ?N)"
    using sampleArray_loop_same_grid [of x ?N yref y "effective_epsilon epsilon" 0 "- 1"] assms eps(2)
    by simp
  show ?thesis
    using inc loop assms(3,4) by (simp add: sampleArray_def Let_def)
qed

theorem sampleArray_round_trip_witness:
  "[0, 1, 2] \<noteq> ([] :: real list) \<and> sorted_wrt (<) [0, 1, 2 :: real] \<and>
   length [10, 20, 30 :: real] = length [0, 1, 2 :: real] \<and>
   length [0, 0, 0 :: real] = length [0, 1, 2 :: real] \<and> (0 :: real) < 1 / 100000 \<and>
   sampleArray [0, 1, 2] [10, 20, 30] 3 [0, 1, 2] [0, 0, 0] 3 0 (1 / 100000) =
     Some ([10, 20, 30], 0, 3)"
  using sampleArray_round_trip [of "[0, 1, 2]" "[10, 20, 30]" "[0, 0, 0]" "1 / 100000"]
  by simp

section \<open>StimulusClampProtocol::init: interning of epochs\<close>

text \<open>
  The pool \<open>std::vector<Epoch*> uniqueEpochs\<close> with the objects it points to: the heap of
  unique epochs (a pointer is an index into it) and the vector of pointers.
\<close>

type_synonym pool = "Epoch list \<times> nat list"

text \<open>\<open>for(Epoch *uniqueEpoch : uniqueEpochs) if(uniqueEpoch->stimuli == epoch.stimuli) ...\<close>:
  the first pointer of the pool whose object has the same stimuli map.\<close>

fun find_unique :: "Epoch list \<Rightarrow> nat list \<Rightarrow> (string \<times> real) list \<Rightarrow> nat option" where
  "find_unique h [] st = None"
| "find_unique h (p # ps) st = (if stimuli (h ! p) = st then Some p else find_unique h ps st)"

text \<open>\<open>new Epoch\<close> followed by \<open>epoch.uniqueEpoch->stimuli = epoch.stimuli\<close> (the other
  fields of the new object are assigned later, by the simulator).\<close>

definition new_Epoch :: "(string \<times> real) list \<Rightarrow> Epoch" where
  "new_Epoch st =
     \<lparr>start = 0, duration = 0, firstPt = 0, numPts = 0, stimuli = st, uniqueEpoch = None,
      transitionRates = [], spectralEigenValues = [], spectralMatrices = []\<rparr>"

text \<open>The body of \<open>for(Epoch &epoch : sim.epochs)\<close>: the new object is appended to the
  heap, so its address \<open>length (fst S)\<close> is fresh.\<close>

definition intern_epoch :: "pool \<Rightarrow> Epoch \<Rightarrow> pool \<times> Epoch" where
  "intern_epoch S e =
     (case find_unique (fst S) (snd S) (stimuli e) of
        Some p \<Rightarrow> (S, e\<lparr>uniqueEpoch := Some p\<rparr>)
      | None \<Rightarrow> ((fst S @ [new_Epoch (stimuli e)], snd S @ [length (fst S)]),
                 e\<lparr>uniqueEpoch := Some (length (fst S))\<rparr>))"

fun intern_epochs :: "pool \<Rightarrow> Epoch list \<Rightarrow> pool \<times> Epoch list" where
  "intern_epochs S [] = (S, [])"
| "intern_epochs S (e # es) =
     (case intern_epoch S e of (S1, e') \<Rightarrow>
        case intern_epochs S1 es of (S2, es') \<Rightarrow> (S2, e' # es'))"

text \<open>The simulations in the order in which \<open>init\<close> visits them (row by row, protocol
  after protocol), all interned into the one pool.\<close>

fun intern_simulations :: "pool \<Rightarrow> Simulation list \<Rightarrow> pool \<times> Simulation list" where
  "intern_simulations S [] = (S, [])"
| "intern_simulations S (sim # sims) =
     (case intern_epochs S (epochs sim) of (S1, es') \<Rightarrow>
        case intern_simulations S1 sims of (S2, sims') \<Rightarrow> (S2, sim\<lparr>epochs := es'\<rparr> # sims'))"

text \<open>Every pointer of the pool points to an allocated object.\<close>

definition pool_valid :: "pool \<Rightarrow> bool" where
  "pool_valid S \<longleftrightarrow> list_all (\<lambda>p. p < length (fst S)) (snd S)"

text \<open>An epoch is interned in a pool when its pointer is the pool's first match for its
  stimuli.\<close>

definition interned :: "pool \<Rightarrow> Epoch \<Rightarrow> bool" where
  "interned S e \<longleftrightarrow>
     (case uniqueEpoch e of None \<Rightarrow> False
      | Some p \<Rightarrow> find_unique (fst S) (snd S) (stimuli e) = Some p)"

text \<open>The pool only grows: \<open>S'\<close> extends \<open>S\<close>.\<close>

definition pool_ext :: "pool \<Rightarrow> pool \<Rightarrow> bool" where
  "pool_ext S S' \<longleftrightarrow> (\<exists>h ps. fst S' = fst S @ h \<and> snd S' = snd S @ ps)"

lemma pool_ext_refl: "pool_ext S S"
  by (simp add: pool_ext_def)

lemma pool_ext_trans: "pool_ext S S1 \<Longrightarrow> pool_ext S1 S2 \<Longrightarrow> pool_ext S S2"
  by (auto simp: pool_ext_def)

lemma find_unique_append:
  assumes "list_all (\<lambda>p. p < length h) ps" and "find_unique h ps st = Some p"
  shows "find_unique (h @ h') (ps @ ps') st = Some p"
  using assms by (induction ps) (auto simp: nth_append split: if_splits)

lemma find_unique_stimuli:
  "find_unique h ps st = Some p \<Longrightarrow> stimuli (h ! p) = st"
  by (induction ps) (auto split: if_splits)

lemma find_unique_None_append:
  assumes "list_all (\<lambda>p. p < length h) ps" and "find_unique h ps st = None"
  shows "find_unique (h @ [new_Epoch st]) (ps @ [length h]) st = Some (length h)"
  using assms by (induction ps) (auto simp: nth_append new_Epoch_def split: if_splits)

lemma interned_ext:
  "pool_valid S \<Longrightarrow> pool_ext S S' \<Longrightarrow> interned S e \<Longrightarrow> interned S' e"
  by (auto simp: pool_valid_def pool_ext_def interned_def find_unique_append split: option.splits)

lemma intern_epoch_props:
  assumes "pool_valid S" and "intern_epoch S e = (S', e')"
  shows "pool_valid S'" and "pool_ext S S'" and "interned S' e'" and "stimuli e' = stimuli e"
  using assms
  by (auto simp: intern_epoch_def pool_valid_def pool_ext_def interned_def
      find_unique_None_append list_all_iff less_Suc_eq split: option.splits)

lemma intern_epochs_props:
  assumes "pool_valid S" and "intern_epochs S es = (S', es')"
  shows "pool_valid S' \<and> pool_ext S S' \<and> list_all (interned S') es' \<and>
    map stimuli es' = map stimuli es"
  using assms
proof (induction es arbitrary: S S' es')
  case Nil
  then show ?case by (simp add: pool_ext_refl)
next
  case (Cons e es)
  obtain S1 e' where 1: "intern_epoch S e = (S1, e')" by (cases "intern_epoch S e")
  obtain S2 es2 where 2: "intern_epochs S1 es = (S2, es2)" by (cases "intern_epochs S1 es")
  from Cons.prems(2) 1 2 have eq: "S' = S2" "es' = e' # es2" by simp_all
  note p1 = intern_epoch_props [OF Cons.prems(1) 1]
  from Cons.IH [OF p1(1) 2] have p2: "pool_valid S2" "pool_ext S1 S2" "list_all (interned S2) es2"
    "map stimuli es2 = map stimuli es" by simp_all
  have "interned S2 e'" by (rule interned_ext [OF p1(1) p2(2) p1(3)])
  with p1 p2 show ?case unfolding eq by (simp add: pool_ext_trans [OF p1(2) p2(2)])
qed

lemma intern_simulations_props:
  assumes "pool_valid S" and "intern_simulations S sims = (S', sims')"
  shows "pool_valid S' \<and> pool_ext S S' \<and>
    list_all (\<lambda>sim. list_all (interned S') (epochs sim)) sims'"
  using assms
proof (induction sims arbitrary: S S' sims')
  case Nil
  then show ?case by (simp add: pool_ext_refl)
next
  case (Cons sim sims)
  obtain S1 es1 where 1: "intern_epochs S (epochs sim) = (S1, es1)"
    by (cases "intern_epochs S (epochs sim)")
  obtain S2 sims2 where 2: "intern_simulations S1 sims = (S2, sims2)"
    by (cases "intern_simulations S1 sims")
  from Cons.prems(2) 1 2 have eq: "S' = S2" "sims' = sim\<lparr>epochs := es1\<rparr> # sims2" by simp_all
  from intern_epochs_props [OF Cons.prems(1) 1]
  have p1: "pool_valid S1" "pool_ext S S1" "list_all (interned S1) es1" by simp_all
  from Cons.IH [OF p1(1) 2]
  have p2: "pool_valid S2" "pool_ext S1 S2"
    "list_all (\<lambda>sim. list_all (interned S2) (epochs sim)) sims2" by simp_all
  have "list_all (interned S2) es1"
    using p1(3) interned_ext [OF p1(1) p2(2)] by (auto simp: list_all_iff)
  with p2 show ?case unfolding eq by (simp add: pool_ext_trans [OF p1(2) p2(2)])
qed

lemma interned_pointer_iff:
  assumes "interned S e1" and "interned S e2"
  shows "uniqueEpoch e1 = uniqueEpoch e2 \<longleftrightarrow> stimuli e1 = stimuli e2"
proof -
  from assms obtain p1 p2 where p: "uniqueEpoch e1 = Some p1" "uniqueEpoch e2 = Some p2"
    and f: "find_unique (fst S) (snd S) (stimuli e1) = Some p1"
      "find_unique (fst S) (snd S) (stimuli e2) = Some p2"
    by (auto simp: interned_def split: option.splits)
  show ?thesis
  proof
    assume "uniqueEpoch e1 = uniqueEpoch e2"
    with p have "p1 = p2" by simp
    with find_unique_stimuli [OF f(1)] find_unique_stimuli [OF f(2)]
    show "stimuli e1 = stimuli e2" by simp
  next
    assume "stimuli e1 = stimuli e2"
    with f p show "uniqueEpoch e1 = uniqueEpoch e2" by simp
  qed
qed

text \<open>
  C2.  After \<open>init\<close> has interned the epochs of any simulations into one pool (whose
  pointers were valid before), any two of their epochs have equal \<open>uniqueEpoch\<close> pointers
  if and only if their stimuli maps are equal, key for key and value for value.
\<close>

theorem init_unique_epochs_iff:
  assumes "pool_valid S"
    and "intern_simulations S sims = (S', sims')"
    and "sim1 \<in> set sims'" and "sim2 \<in> set sims'"
    and "e1 \<in> set (epochs sim1)" and "e2 \<in> set (epochs sim2)"
  shows "uniqueEpoch e1 \<noteq> None \<and> uniqueEpoch e2 \<noteq> None \<and>
    (uniqueEpoch e1 = uniqueEpoch e2 \<longleftrightarrow> stimuli e1 = stimuli e2)"
proof -
  from intern_simulations_props [OF assms(1,2)]
  have all: "list_all (\<lambda>sim. list_all (interned S') (epochs sim)) sims'" by simp
  from all assms(3,5) have 1: "interned S' e1" by (auto simp: list_all_iff)
  from all assms(4,6) have 2: "interned S' e2" by (auto simp: list_all_iff)
  from 1 2 interned_pointer_iff [OF 1 2] show ?thesis
    by (auto simp: interned_def split: option.splits)
qed

definition epoch_example :: "real \<Rightarrow> real \<Rightarrow> int \<Rightarrow> int \<Rightarrow> real \<Rightarrow> Epoch" where
  "epoch_example t d f n volt =
     \<lparr>start = t, duration = d, firstPt = f, numPts = n, stimuli = [(''V'', volt)],
      uniqueEpoch = None, transitionRates = [], spectralEigenValues = [],
      spectralMatrices = []\<rparr>"

definition sims_example :: "Simulation list" where
  "sims_example =
     [sim_example\<lparr>epochs := [epoch_example 0 1 0 1 0, epoch_example 1 2 1 2 5]\<rparr>,
      sim_example\<lparr>epochs := [epoch_example 0 3 0 3 5]\<rparr>]"

theorem init_unique_epochs_iff_witness:
  "pool_valid ([], []) \<and>
   uniqueEpoch (epochs (snd (intern_simulations ([], []) sims_example) ! 0) ! 1) = Some 1 \<and>
   uniqueEpoch (epochs (snd (intern_simulations ([], []) sims_example) ! 1) ! 0) = Some 1 \<and>
   stimuli (epochs (snd (intern_simulations ([], []) sims_example) ! 0) ! 1) =
     stimuli (epochs (snd (intern_simulations ([], []) sims_example) ! 1) ! 0) \<and>
   uniqueEpoch (epochs (snd (intern_simulations ([], []) sims_example) ! 0) ! 0) \<noteq>
     uniqueEpoch (epochs (snd (intern_simulations ([], []) sims_example) ! 0) ! 1)"
  using init_unique_epochs_iff [of "([], [])" sims_example
      "fst (intern_simulations ([], []) sims_example)"
      "snd (intern_simulations ([], []) sims_example)"
      "snd (intern_simulations ([], []) sims_example) ! 0"
      "snd (intern_simulations ([], []) sims_example) ! 1"
      "epochs (snd (intern_simulations ([], []) sims_example) ! 0) ! 1"
      "epochs (snd (intern_simulations ([], []) sims_example) ! 1) ! 0"]
  by (simp add: pool_valid_def sims_example_def sim_example_def epoch_example_def
      intern_epoch_def new_Epoch_def)

section \<open>StimulusClampProtocol::cost\<close>

text \<open>
  The parts of \<open>SimulationsSummary\<close> and \<open>StimulusClampProtocol\<close> that the cost and the
  summary normalisation read: \<open>summary_referenceData\<close> is \<open>summary->referenceData\<close> (per
  variable set, per row), \<open>summaries\<close> the protocol's \<open>SimulationsSummary\<close> children.
\<close>

datatype Normalization = NoNormalization | PerRow | AllRows

record SimulationsSummary =
  isActive :: bool
  normalization :: Normalization
  dataY :: "real list list list"
  summary_referenceData :: "RefData list list"


text \<open>\<open>QStringList::indexOf\<close>: the first index of the name (\<open>None\<close> for \<open>-1\<close>).\<close>

fun indexOf :: "string list \<Rightarrow> string \<Rightarrow> nat option" where
  "indexOf [] name = None"
| "indexOf (s # ss) name = (if s = name then Some 0 else map_option Suc (indexOf ss name))"

text \<open>
  \<open>getSimulationWaveform\<close>: the buffer \<open>y\<close> of a state's probability column, else of a
  stimulus, else of a waveform of that name; \<open>None\<close> when \<open>*y\<close> stays null.  A state name
  returns without a buffer when the variable set has no probability matrix.
\<close>

definition getSimulationWaveform ::
  "string list \<Rightarrow> string \<Rightarrow> Simulation \<Rightarrow> nat \<Rightarrow> real list option" where
  "getSimulationWaveform names name sim v =
     (case indexOf names name of
        Some stateIndex \<Rightarrow>
          (if length (probability sim) > v
           then Some (map (\<lambda>row. row ! stateIndex) (probability sim ! v)) else None)
      | None \<Rightarrow>
          (case map_of (sim_stimuli sim) name of
             Some y \<Rightarrow> Some y
           | None \<Rightarrow>
               (if length (waveforms sim) > v then map_of (waveforms sim ! v) name else None)))"


definition weighted_sq_sum :: "real list \<Rightarrow> real list \<Rightarrow> real list \<Rightarrow> int \<Rightarrow> int \<Rightarrow> real" where
  "weighted_sq_sum y ref w fp np =
     sum_list (map (\<lambda>k. (y ! (nat fp + k) - ref ! k)\<^sup>2 * w ! (nat fp + k)) [0..<nat np])"

text \<open>What one entry \<open>kv\<close> of \<open>sim.referenceData.at(variableSetIndex)\<close> adds to \<open>cost\<close>.\<close>

definition ref_cost :: "string list \<Rightarrow> Simulation \<Rightarrow> nat \<Rightarrow> string \<times> RefData \<Rightarrow> real" where
  "ref_cost names sim v kv =
     (if ref_numPts (snd kv) > 0 then
        (case getSimulationWaveform names (fst kv) sim v of
           Some y \<Rightarrow>
             if length (time sim) > 0
             then weighted_sq_sum y (waveform (snd kv)) (weight sim)
                    (ref_firstPt (snd kv)) (ref_numPts (snd kv)) * ref_weight (snd kv)
             else 0
         | None \<Rightarrow> 0)
      else 0)"

text \<open>The \<open>Eigen::Map\<close>s of the source read raw memory: the range
  \<open>[firstPt, firstPt + numPts)\<close> must lie inside the buffer and the weights, and the
  reference waveform must have \<open>numPts\<close> entries.\<close>

definition ref_in_range :: "string list \<Rightarrow> Simulation \<Rightarrow> nat \<Rightarrow> string \<times> RefData \<Rightarrow> bool" where
  "ref_in_range names sim v kv =
     (if ref_numPts (snd kv) > 0 then
        (case getSimulationWaveform names (fst kv) sim v of
           Some y \<Rightarrow>
             if length (time sim) > 0
             then 0 \<le> ref_firstPt (snd kv) \<and>
                  nat (ref_firstPt (snd kv)) + nat (ref_numPts (snd kv)) \<le> length y \<and>
                  nat (ref_firstPt (snd kv)) + nat (ref_numPts (snd kv)) \<le> length (weight sim) \<and>
                  length (waveform (snd kv)) = nat (ref_numPts (snd kv))
             else True
         | None \<Rightarrow> True)
      else True)"











subsection \<open>The loops as sums\<close>











subsection \<open>Changing the weight of one reference curve\<close>

lemma getSimulationWaveform_referenceData [simp]:
  "getSimulationWaveform names name (sim\<lparr>referenceData := r\<rparr>) u =
     getSimulationWaveform names name sim u"
  by (simp add: getSimulationWaveform_def split: option.splits)

lemma ref_cost_referenceData [simp]:
  "ref_cost names (sim\<lparr>referenceData := r\<rparr>) u = ref_cost names sim u"
  by (rule ext) (simp add: ref_cost_def split: option.splits)

lemma ref_in_range_referenceData [simp]:
  "ref_in_range names (sim\<lparr>referenceData := r\<rparr>) u = ref_in_range names sim u"
  by (rule ext) (simp add: ref_in_range_def split: option.splits)

lemma ref_in_range_weight [simp]:
  "ref_in_range names sim u (fst kv, (snd kv)\<lparr>ref_weight := w\<rparr>) = ref_in_range names sim u kv"
  by (simp add: ref_in_range_def split: option.splits)





subsection \<open>Changing the weight of one summary reference\<close>








section \<open>Summary normalisation in StimulusClampProtocolSimulator::runSimulation\<close>

text \<open>
  The normalisation divides doubles, and the divisor can be zero.  HOL's \<open>x / 0 = 0\<close> is
  not what the machine does, so the quotient of two (finite) doubles is modelled with the
  special values of IEEE 754: \<open>0 / 0\<close> is NaN, \<open>x / 0\<close> is an infinity.  (The divisors
  here are maxima of absolute values, so a zero divisor is \<open>+0\<close>.)
\<close>

datatype ieee = Finite real | PlusInfinity | MinusInfinity | NaN

definition ieee_div :: "real \<Rightarrow> real \<Rightarrow> ieee" where
  "ieee_div x d =
     (if d \<noteq> 0 then Finite (x / d)
      else if x = 0 then NaN else if 0 < x then PlusInfinity else MinusInfinity)"

text \<open>\<open>maxCoeff()\<close>: the visitor starts from coefficient 0; on an empty vector or matrix the
  source reads out of range (\<open>None\<close>).\<close>

fun maxCoeff :: "real list \<Rightarrow> real option" where
  "maxCoeff [] = None"
| "maxCoeff (x # xs) = Some (fold max xs x)"

text \<open>\<open>dataY.row(row) /= dataY.row(row).array().abs().maxCoeff()\<close>, and the loop over the
  rows.\<close>

definition normalize_row :: "real list \<Rightarrow> ieee list option" where
  "normalize_row row =
     (case maxCoeff (map abs row) of
        None \<Rightarrow> None
      | Some d \<Rightarrow> Some (map (\<lambda>x. ieee_div x d) row))"

fun normalize_rows :: "real list list \<Rightarrow> ieee list list option" where
  "normalize_rows [] = Some []"
| "normalize_rows (row # rows) =
     (case normalize_row row of
        None \<Rightarrow> None
      | Some row' \<Rightarrow> map_option ((#) row') (normalize_rows rows))"

text \<open>
  The body of \<open>foreach(SimulationsSummary *summary, summaries)\<close> under
  \<open>// Summary normalization.\<close>: the matrix \<open>summary->dataY.at(variableSetIndex)\<close> after
  it (\<open>at\<close> throws when the index is out of range).
\<close>

definition summary_normalization :: "SimulationsSummary \<Rightarrow> nat \<Rightarrow> ieee list list option" where
  "summary_normalization s v =
     (if \<not> v < length (dataY s) then None
      else if \<not> isActive s then Some (map (map Finite) (dataY s ! v))
      else
        (case normalization s of
           PerRow \<Rightarrow> normalize_rows (dataY s ! v)
         | AllRows \<Rightarrow>
             (case maxCoeff (map abs (concat (dataY s ! v))) of
                None \<Rightarrow> None
              | Some d \<Rightarrow> Some (map (map (\<lambda>x. ieee_div x d)) (dataY s ! v)))
         | NoNormalization \<Rightarrow> Some (map (map Finite) (dataY s ! v))))"

subsection \<open>No guard against a zero maximum\<close>

definition summary_zero :: "Normalization \<Rightarrow> SimulationsSummary" where
  "summary_zero n =
     \<lparr>isActive = True, normalization = n, dataY = [[[0, 0], [1, 2]]], summary_referenceData = []\<rparr>"


text \<open>
  C6 (as stated, fails).  A row of zeros has the maximum absolute value \<open>0\<close>; under
  \<open>PerRow\<close> the source divides it by that \<open>0\<close>, and the row becomes NaN instead of being
  left unchanged.
\<close>

theorem summary_normalization_zero_row:
  "summary_normalization (summary_zero PerRow) 0 =
     Some [[NaN, NaN], [Finite (1 / 2), Finite 1]]"
  by (simp add: summary_normalization_def summary_zero_def normalize_row_def ieee_div_def)

lemma maxCoeff_Max:
  "xs \<noteq> [] \<Longrightarrow> maxCoeff xs = Some (Max (set xs))"
  by (cases xs) (simp_all add: Max.set_eq_fold [symmetric])

lemma maxCoeff_abs_zero:
  assumes "xs \<noteq> []" and "Max (set (map abs xs)) = (0::real)" and "x \<in> set xs"
  shows "x = 0"
proof -
  have "\<bar>x\<bar> \<le> Max (set (map abs xs))"
    using assms(3) by (intro Max_ge) auto
  with assms(2) show ?thesis by simp
qed

lemma normalize_row_eq:
  assumes "row \<noteq> []"
  shows "normalize_row row =
    Some (map (\<lambda>x. if Max (set (map abs row)) = 0 then NaN
                     else Finite (x / Max (set (map abs row)))) row)"
proof -
  have m: "maxCoeff (map abs row) = Some (Max (set (map abs row)))"
    using assms by (intro maxCoeff_Max) simp
  have "ieee_div x (Max (set (map abs row))) =
      (if Max (set (map abs row)) = 0 then NaN else Finite (x / Max (set (map abs row))))"
    if "x \<in> set row" for x
    using maxCoeff_abs_zero [OF assms _ that] by (auto simp: ieee_div_def)
  then show ?thesis
    by (simp add: normalize_row_def m)
qed

lemma normalize_rows_eq:
  assumes "list_all (\<lambda>row. row \<noteq> []) rows"
  shows "normalize_rows rows =
    Some (map (\<lambda>row. map (\<lambda>x. if Max (set (map abs row)) = 0 then NaN
                     else Finite (x / Max (set (map abs row)))) row) rows)"
  using assms by (induction rows) (simp_all add: normalize_row_eq)

text \<open>
  C6 (amended).  For an active summary with normalisation \<open>PerRow\<close> (\<open>AllRows\<close>), every
  entry is divided by the maximum absolute value of its row (of the whole matrix) when that
  maximum is not zero; when it is zero, every entry of the row (of the matrix) is \<open>0 / 0\<close>,
  that is NaN: the divisor is not replaced by \<open>1\<close>.
\<close>

theorem summary_normalization_unguarded:
  assumes "isActive s" and "v < length (dataY s)"
    and "list_all (\<lambda>row. row \<noteq> []) (dataY s ! v)" and "dataY s ! v \<noteq> []"
  shows "(normalization s = PerRow \<longrightarrow>
      summary_normalization s v =
        Some (map (\<lambda>row. map (\<lambda>x. if Max (set (map abs row)) = 0 then NaN
                                   else Finite (x / Max (set (map abs row)))) row)
               (dataY s ! v))) \<and>
    (normalization s = AllRows \<longrightarrow>
      summary_normalization s v =
        Some (map (map (\<lambda>x. if Max (set (map abs (concat (dataY s ! v)))) = 0 then NaN
                              else Finite (x / Max (set (map abs (concat (dataY s ! v)))))))
               (dataY s ! v)))"
proof (intro conjI impI)
  assume "normalization s = PerRow"
  then show "summary_normalization s v =
      Some (map (\<lambda>row. map (\<lambda>x. if Max (set (map abs row)) = 0 then NaN
                                 else Finite (x / Max (set (map abs row)))) row)
             (dataY s ! v))"
    using assms by (simp add: summary_normalization_def normalize_rows_eq)
next
  let ?all = "concat (dataY s ! v)"
  let ?d = "Max (set (map abs ?all))"
  assume n: "normalization s = AllRows"
  obtain row rows where rows: "dataY s ! v = row # rows"
    using assms(4) by (cases "dataY s ! v") auto
  with assms(3) have ne: "?all \<noteq> []" by simp
  then have m: "maxCoeff (map abs ?all) = Some ?d"
    by (intro maxCoeff_Max) simp
  have "ieee_div x ?d = (if ?d = 0 then NaN else Finite (x / ?d))"
    if "x \<in> set r" "r \<in> set (dataY s ! v)" for x r
  proof -
    from that have "x \<in> set ?all" by auto
    from maxCoeff_abs_zero [OF ne _ this] show ?thesis by (auto simp: ieee_div_def)
  qed
  then have "map (map (\<lambda>x. ieee_div x ?d)) (dataY s ! v) =
      map (map (\<lambda>x. if ?d = 0 then NaN else Finite (x / ?d))) (dataY s ! v)"
    by (intro map_cong refl) blast
  then show "summary_normalization s v =
      Some (map (map (\<lambda>x. if ?d = 0 then NaN else Finite (x / ?d))) (dataY s ! v))"
    using assms(1,2) n by (simp add: summary_normalization_def m)
qed

theorem summary_normalization_unguarded_witness:
  "isActive (summary_zero PerRow) \<and> 0 < length (dataY (summary_zero PerRow)) \<and>
   list_all (\<lambda>row. row \<noteq> []) (dataY (summary_zero PerRow) ! 0) \<and>
   dataY (summary_zero PerRow) ! 0 \<noteq> [] \<and>
   summary_normalization (summary_zero PerRow) 0 =
     Some (map (\<lambda>row. map (\<lambda>x. if Max (set (map abs row)) = 0 then NaN
                                else Finite (x / Max (set (map abs row)))) row)
            [[0, 0], [1, 2]]) \<and>
   summary_normalization (summary_zero AllRows) 0 =
     Some [[Finite 0, Finite 0], [Finite (1 / 2), Finite 1]]"
proof -
  have a: "isActive (summary_zero n)" "0 < length (dataY (summary_zero n))"
    "list_all (\<lambda>row. row \<noteq> []) (dataY (summary_zero n) ! 0)"
    "dataY (summary_zero n) ! 0 \<noteq> []" "normalization (summary_zero n) = n"
    "dataY (summary_zero n) ! 0 = [[0, 0], [1, 2]]" for n
    by (simp_all add: summary_zero_def)
  have mx: "Max (set (map abs (concat [[0, 0], [1, 2 :: real]]))) = 2" by simp
  from summary_normalization_unguarded [OF a(1-4), of PerRow] a(5,6)
  have 1: "summary_normalization (summary_zero PerRow) 0 =
     Some (map (\<lambda>row. map (\<lambda>x. if Max (set (map abs row)) = 0 then NaN
                                else Finite (x / Max (set (map abs row)))) row)
            [[0, 0], [1, 2]])"
    by simp
  from summary_normalization_unguarded [OF a(1-4), of AllRows] a(5,6) mx
  have 2: "summary_normalization (summary_zero AllRows) 0 =
     Some [[Finite 0, Finite 0], [Finite (1 / 2), Finite 1]]"
    by simp
  from a(1-4) [of PerRow] 1 2 show ?thesis by simp
qed

section \<open>Simulation::spectralSimulation\<close>

text \<open>\<open>Eigen::MatrixXd::Zero(r, c)\<close>, and the shape of a matrix given as its list of rows.\<close>

definition Zero :: "nat \<Rightarrow> nat \<Rightarrow> real list list" where
  "Zero r c = replicate r (replicate c 0)"

definition has_shape :: "nat \<Rightarrow> nat \<Rightarrow> real list list \<Rightarrow> bool" where
  "has_shape r c M \<longleftrightarrow> length M = r \<and> list_all (\<lambda>row. length row = c) M"

text \<open>The product \<open>p * A\<close> of a row vector and a matrix; Eigen asserts that the dimensions
  agree (\<open>None\<close> when they do not).\<close>

definition vec_mat :: "real list \<Rightarrow> real list list \<Rightarrow> real list option" where
  "vec_mat p A =
     (case A of
        [] \<Rightarrow> (if p = [] then Some [] else None)
      | a # _ \<Rightarrow>
          if length A = length p \<and> list_all (\<lambda>row. length row = length a) A
          then Some (map (\<lambda>j. sum_list (map (\<lambda>i. p ! i * A ! i ! j) [0..<length p]))
                      [0..<length a])
          else None)"

text \<open>\<open>epoch.uniqueEpoch->\<close>: the unique epoch of an epoch; \<open>None\<close> for a pointer that is
  not set or not allocated.\<close>

definition deref :: "Epoch list \<Rightarrow> Epoch \<Rightarrow> Epoch option" where
  "deref heap e =
     (case uniqueEpoch e of
        None \<Rightarrow> None
      | Some a \<Rightarrow> if a < length heap then Some (heap ! a) else None)"

text \<open>\<open>P.block(epoch.firstPt, 0, epoch.numPts, numStates)\<close> and
  \<open>time.segment(epoch.firstPt, epoch.numPts)\<close> must lie inside \<open>P\<close> and \<open>time\<close> (both have
  \<open>time.size()\<close> rows).  \<open>set_rows\<close> is \<open>block.rowwise() = row\<close>; \<open>add_outer\<close> is
  \<open>block += col * row\<close> for a column vector \<open>col\<close> of the block's height.\<close>

definition block_ok :: "real list list \<Rightarrow> Epoch \<Rightarrow> bool" where
  "block_ok P e \<longleftrightarrow> 0 \<le> firstPt e \<and> nat (firstPt e) + nat (numPts e) \<le> length P"

definition set_rows :: "real list list \<Rightarrow> nat \<Rightarrow> nat \<Rightarrow> real list \<Rightarrow> real list list" where
  "set_rows P f n row =
     map (\<lambda>r. if f \<le> r \<and> r < f + n then row else P ! r) [0..<length P]"

definition add_outer :: "real list list \<Rightarrow> nat \<Rightarrow> real list \<Rightarrow> real list \<Rightarrow> real list list" where
  "add_outer P f col row =
     map (\<lambda>r. if f \<le> r \<and> r < f + length col
              then map (\<lambda>j. P ! r ! j + col ! (r - f) * row ! j) [0..<length row]
              else P ! r) [0..<length P]"

text \<open>For state \<open>i\<close>: \<open>lambda = spectralEigenValues[i]\<close> and the row vector
  \<open>startingProbability * spectralMatrices[i]\<close>, which must have \<open>numStates\<close> entries to be
  added to a row of \<open>P\<close> or to \<open>temp\<close>.\<close>

definition spectral_term ::
  "Epoch list \<Rightarrow> Epoch \<Rightarrow> nat \<Rightarrow> real list \<Rightarrow> nat \<Rightarrow> (real \<times> real list) option" where
  "spectral_term heap e numStates p i =
     (case deref heap e of
        None \<Rightarrow> None
      | Some u \<Rightarrow>
          if i < length (spectralEigenValues u) \<and> i < length (spectralMatrices u) then
            (case vec_mat p (spectralMatrices u ! i) of
               None \<Rightarrow> None
             | Some pA \<Rightarrow>
                 if length pA = numStates then Some (spectralEigenValues u ! i, pA) else None)
          else None)"

text \<open>The two loops \<open>for(int i = 0; i < numStates; ++i)\<close>: the first adds
  \<open>exp(epochTime * lambda) * (p * A)\<close> to the epoch's block of \<open>P\<close>, the second computes the
  starting probability of the next epoch in \<open>temp\<close>.\<close>

fun epoch_probability ::
  "Epoch list \<Rightarrow> Epoch \<Rightarrow> nat \<Rightarrow> real list \<Rightarrow> real list \<Rightarrow> nat list \<Rightarrow> real list list \<Rightarrow>
   real list list option" where
  "epoch_probability heap e numStates p epochTime [] P = Some P"
| "epoch_probability heap e numStates p epochTime (i # is) P =
     (case spectral_term heap e numStates p i of
        None \<Rightarrow> None
      | Some (lambda, pA) \<Rightarrow>
          epoch_probability heap e numStates p epochTime is
            (add_outer P (nat (firstPt e)) (map (\<lambda>t. exp (t * lambda)) epochTime) pA))"

fun next_probability ::
  "Epoch list \<Rightarrow> Epoch \<Rightarrow> nat \<Rightarrow> real list \<Rightarrow> nat list \<Rightarrow> real list \<Rightarrow> real list option" where
  "next_probability heap e numStates p [] temp = Some temp"
| "next_probability heap e numStates p (i # is) temp =
     (case spectral_term heap e numStates p i of
        None \<Rightarrow> None
      | Some (lambda, pA) \<Rightarrow>
          next_probability heap e numStates p is
            (map (\<lambda>j. temp ! j + pA ! j * exp (lambda * duration e)) [0..<numStates]))"

text \<open>The body of \<open>for(const Epoch &epoch : epochs)\<close> on the state
  \<open>(startingProbability, P)\<close>, with no abort.\<close>

definition epoch_step ::
  "Epoch list \<Rightarrow> real list \<Rightarrow> bool \<Rightarrow> nat \<Rightarrow> nat \<Rightarrow> Epoch \<Rightarrow> nat \<Rightarrow>
   real list \<times> real list list \<Rightarrow> (real list \<times> real list list) option" where
  "epoch_step heap tv startEquilibrated numStates numEpochs e epochCounter s =
     (let p = fst s; P = snd s in
      if epochCounter = 0 \<and> startEquilibrated then
        (case deref heap e of
           None \<Rightarrow> None
         | Some u \<Rightarrow>
             (case spectralMatrices u of
                [] \<Rightarrow> None
              | A # _ \<Rightarrow>
                  (case vec_mat p A of
                     None \<Rightarrow> None
                   | Some p' \<Rightarrow>
                       if numPts e > 0 then
                         (if block_ok P e \<and> length p' = numStates
                          then Some (p', set_rows P (nat (firstPt e)) (nat (numPts e)) p')
                          else None)
                       else Some (p', P))))
      else
        (case (if numPts e > 0 then
                 (if block_ok P e then
                    epoch_probability heap e numStates p
                      (map (\<lambda>t. t - start e) (take (nat (numPts e)) (drop (nat (firstPt e)) tv)))
                      [0..<numStates] P
                  else None)
               else Some P) of
           None \<Rightarrow> None
         | Some P' \<Rightarrow>
             (case (if epochCounter + 1 < numEpochs
                    then next_probability heap e numStates p [0..<numStates] (replicate numStates 0)
                    else Some p) of
                None \<Rightarrow> None
              | Some p' \<Rightarrow> Some (p', P'))))"

fun spectral_epochs ::
  "Epoch list \<Rightarrow> real list \<Rightarrow> bool \<Rightarrow> nat \<Rightarrow> nat \<Rightarrow> Epoch list \<Rightarrow> nat \<Rightarrow>
   real list \<times> real list list \<Rightarrow> (real list \<times> real list list) option" where
  "spectral_epochs heap tv startEquilibrated numStates numEpochs [] epochCounter s = Some s"
| "spectral_epochs heap tv startEquilibrated numStates numEpochs (e # es) epochCounter s =
     (case epoch_step heap tv startEquilibrated numStates numEpochs e epochCounter s of
        None \<Rightarrow> None
      | Some s' \<Rightarrow>
          spectral_epochs heap tv startEquilibrated numStates numEpochs es (Suc epochCounter) s')"

text \<open>
  \<open>spectralSimulation\<close>: the \<open>while\<close> loop appends zero matrices until
  \<open>probability[variableSetIndex]\<close> exists; \<open>P.setZero(numPts, numStates)\<close> makes the
  result independent of what that entry held.
\<close>

definition spectralSimulation ::
  "Epoch list \<Rightarrow> real list \<Rightarrow> bool \<Rightarrow> nat \<Rightarrow> Simulation \<Rightarrow> Simulation option" where
  "spectralSimulation heap startingProbability startEquilibrated variableSetIndex sim =
     (let numPts = length (time sim);
          numStates = length startingProbability;
          prob = probability sim @
                 replicate (Suc variableSetIndex - length (probability sim)) (Zero numPts numStates)
      in case spectral_epochs heap (time sim) startEquilibrated numStates (length (epochs sim))
                (epochs sim) 0 (startingProbability, Zero numPts numStates) of
           None \<Rightarrow> None
         | Some s \<Rightarrow> Some (sim\<lparr>probability := prob[variableSetIndex := snd s]\<rparr>))"

subsection \<open>Shape of the probability matrix\<close>

lemma has_shape_Zero: "has_shape r c (Zero r c)"
  by (simp add: has_shape_def Zero_def list_all_iff)

lemma has_shape_set_rows:
  "has_shape r c P \<Longrightarrow> length row = c \<Longrightarrow> has_shape r c (set_rows P f n row)"
  by (auto simp: has_shape_def set_rows_def list_all_iff)

lemma has_shape_add_outer:
  "has_shape r c P \<Longrightarrow> length row = c \<Longrightarrow> has_shape r c (add_outer P f col row)"
  by (auto simp: has_shape_def add_outer_def list_all_iff)

lemma spectral_term_length:
  "spectral_term heap e numStates p i = Some (lambda, pA) \<Longrightarrow> length pA = numStates"
  by (auto simp: spectral_term_def split: option.splits if_splits)

lemma has_shape_epoch_probability:
  "epoch_probability heap e numStates p epochTime is P = Some P' \<Longrightarrow>
   has_shape r numStates P \<Longrightarrow> has_shape r numStates P'"
proof (induction "is" arbitrary: P)
  case Nil
  then show ?case by simp
next
  case (Cons i "is")
  from Cons.prems(1) obtain lambda pA where t: "spectral_term heap e numStates p i = Some (lambda, pA)"
    and rec: "epoch_probability heap e numStates p epochTime is
        (add_outer P (nat (firstPt e)) (map (\<lambda>t. exp (t * lambda)) epochTime) pA) = Some P'"
    by (auto split: option.splits)
  from spectral_term_length [OF t] Cons.prems(2)
  have "has_shape r numStates (add_outer P (nat (firstPt e)) (map (\<lambda>t. exp (t * lambda)) epochTime) pA)"
    by (intro has_shape_add_outer)
  with rec show ?case by (rule Cons.IH)
qed

lemma has_shape_epoch_step:
  assumes "epoch_step heap tv startEquilibrated numStates numEpochs e k s = Some s'"
    and "has_shape r numStates (snd s)"
  shows "has_shape r numStates (snd s')"
  using assms
  by (auto simp: epoch_step_def Let_def has_shape_set_rows
      split: option.splits list.splits if_splits dest: has_shape_epoch_probability)

lemma has_shape_spectral_epochs:
  "spectral_epochs heap tv startEquilibrated numStates numEpochs es k s = Some s' \<Longrightarrow>
   has_shape r numStates (snd s) \<Longrightarrow> has_shape r numStates (snd s')"
proof (induction es arbitrary: k s)
  case Nil
  then show ?case by simp
next
  case (Cons e es)
  from Cons.prems(1) obtain s1 where
    1: "epoch_step heap tv startEquilibrated numStates numEpochs e k s = Some s1"
    and 2: "spectral_epochs heap tv startEquilibrated numStates numEpochs es (Suc k) s1 = Some s'"
    by (auto split: option.splits)
  from has_shape_epoch_step [OF 1 Cons.prems(2)] 2 show ?case by (rule Cons.IH [rotated])
qed

text \<open>
  C10 (amended).  \<open>spectralSimulation\<close> replaces \<open>probability[variableSetIndex]\<close>: it zeroes the
  matrix before accumulating, so a second call with the same arguments (no abort) leaves
  the simulation, and with it \<open>probability[variableSetIndex]\<close>, as the first call left it.
  Afterwards the probability vector has at least \<open>variableSetIndex + 1\<close> entries; entry
  \<open>variableSetIndex\<close> and every entry the call appended have shape \<open>N \<times> S\<close>, the other
  entries are unchanged, so all entries are \<open>N \<times> S\<close> when the earlier ones were.
\<close>

theorem spectralSimulation_idempotent:
  assumes "spectralSimulation heap startingProbability startEquilibrated v sim = Some sim'"
  shows "spectralSimulation heap startingProbability startEquilibrated v sim' = Some sim' \<and>
    v + 1 \<le> length (probability sim') \<and>
    has_shape (length (time sim)) (length startingProbability) (probability sim' ! v) \<and>
    (\<forall>k < length (probability sim').
       if k = v \<or> length (probability sim) \<le> k
       then has_shape (length (time sim)) (length startingProbability) (probability sim' ! k)
       else probability sim' ! k = probability sim ! k) \<and>
    (list_all (has_shape (length (time sim)) (length startingProbability)) (probability sim) \<longrightarrow>
     list_all (has_shape (length (time sim)) (length startingProbability)) (probability sim'))"
proof -
  let ?N = "length (time sim)" and ?S = "length startingProbability"
  let ?prob = "probability sim @ replicate (Suc v - length (probability sim)) (Zero ?N ?S)"
  from assms obtain s where
    run: "spectral_epochs heap (time sim) startEquilibrated ?S (length (epochs sim)) (epochs sim) 0
            (startingProbability, Zero ?N ?S) = Some s"
    and sim': "sim' = sim\<lparr>probability := ?prob[v := snd s]\<rparr>"
    by (auto simp: spectralSimulation_def Let_def split: option.splits)
  have len: "v < length ?prob" by simp
  have P: "has_shape ?N ?S (snd s)"
    by (rule has_shape_spectral_epochs [OF run]) (simp add: has_shape_Zero)
  have pad: "probability sim' @ replicate (Suc v - length (probability sim')) (Zero ?N ?S) =
      ?prob[v := snd s]"
    using len by (simp add: sim')
  have again: "spectralSimulation heap startingProbability startEquilibrated v sim' = Some sim'"
    using run pad by (simp add: spectralSimulation_def Let_def sim')
  have at_v: "probability sim' ! v = snd s"
    using len by (simp add: sim')
  have entries: "if k = v \<or> length (probability sim) \<le> k
       then has_shape ?N ?S (probability sim' ! k)
       else probability sim' ! k = probability sim ! k"
    if "k < length (probability sim')" for k
    using that P by (auto simp: sim' nth_list_update nth_append has_shape_Zero)
  have all: "list_all (has_shape ?N ?S) (probability sim')"
    if "list_all (has_shape ?N ?S) (probability sim)"
    unfolding list_all_length
  proof (intro allI impI)
    fix k assume k: "k < length (probability sim')"
    show "has_shape ?N ?S (probability sim' ! k)"
      using entries [OF k] that k by (auto simp: list_all_length split: if_splits)
  qed
  have len': "v + 1 \<le> length (probability sim')"
    using len by (simp add: sim')
  from P at_v have shape_v: "has_shape ?N ?S (probability sim' ! v)" by simp
  show ?thesis
    using again len' shape_v entries all by blast
qed

text \<open>The two-state model \<open>Q = [[-1, 1], [2, -2]]\<close> with its spectral expansion, started
  in state 0: \<open>P(t, 0) = 2/3 + exp(-3t)/3\<close>.\<close>

definition heap_example :: "Epoch list" where
  "heap_example =
     [(epoch_example 0 0 0 0 5)\<lparr>transitionRates := [[(0, - 1), (1, 1)], [(0, 2), (1, - 2)]],
        spectralEigenValues := [0, - 3],
        spectralMatrices := [[[2 / 3, 1 / 3], [2 / 3, 1 / 3]], [[1 / 3, - 1 / 3], [- 2 / 3, 2 / 3]]]\<rparr>]"

definition sim_spectral_example :: Simulation where
  "sim_spectral_example =
     sim_example\<lparr>sim_stimuli := [(''V'', [5, 5, 5])],
       epochs := [(epoch_example 0 3 0 3 5)\<lparr>uniqueEpoch := Some 0\<rparr>]\<rparr>"

theorem spectralSimulation_idempotent_witness:
  "spectralSimulation heap_example [1, 0] False 0 sim_spectral_example =
     Some (sim_spectral_example\<lparr>probability :=
       [[[1, 0], [2 / 3 + exp (- 3) / 3, 1 / 3 - exp (- 3) / 3],
         [2 / 3 + exp (- 6) / 3, 1 / 3 - exp (- 6) / 3]]]\<rparr>) \<and>
   spectralSimulation heap_example [1, 0] False 0
     (sim_spectral_example\<lparr>probability :=
       [[[1, 0], [2 / 3 + exp (- 3) / 3, 1 / 3 - exp (- 3) / 3],
         [2 / 3 + exp (- 6) / 3, 1 / 3 - exp (- 6) / 3]]]\<rparr>) =
     Some (sim_spectral_example\<lparr>probability :=
       [[[1, 0], [2 / 3 + exp (- 3) / 3, 1 / 3 - exp (- 3) / 3],
         [2 / 3 + exp (- 6) / 3, 1 / 3 - exp (- 6) / 3]]]\<rparr>) \<and>
   list_all (has_shape 3 2) (probability (sim_spectral_example\<lparr>probability :=
       [[[1, 0], [2 / 3 + exp (- 3) / 3, 1 / 3 - exp (- 3) / 3],
         [2 / 3 + exp (- 6) / 3, 1 / 3 - exp (- 6) / 3]]]\<rparr>))"
proof -
  let ?r = "sim_spectral_example\<lparr>probability :=
       [[[1, 0], [2 / 3 + exp (- 3) / 3, 1 / 3 - exp (- 3) / 3],
         [2 / 3 + exp (- 6) / 3, 1 / 3 - exp (- 6) / 3]]]\<rparr>"
  have run: "spectralSimulation heap_example [1, 0] False 0 sim_spectral_example = Some ?r"
    by (simp add: spectralSimulation_def heap_example_def sim_spectral_example_def sim_example_def
        epoch_example_def epoch_step_def deref_def vec_mat_def block_ok_def set_rows_def Zero_def
        Let_def upt_conv_Cons spectral_term_def add_outer_def)
  have pre: "list_all (has_shape (length (time sim_spectral_example)) (length [1, 0 :: real]))
      (probability sim_spectral_example)"
    by (simp add: sim_spectral_example_def sim_example_def)
  have n: "length (time sim_spectral_example) = 3"
    by (simp add: sim_spectral_example_def sim_example_def)
  from spectralSimulation_idempotent [OF run] pre
  have "spectralSimulation heap_example [1, 0] False 0 ?r = Some ?r \<and>
      list_all (has_shape (length (time sim_spectral_example)) (length [1, 0 :: real])) (probability ?r)"
    by blast
  with run n show ?thesis by (simp add: numeral_2_eq_2)
qed

text \<open>
  C10 (as stated, fails).  The entries below \<open>variableSetIndex\<close> are not touched.  With the
  probability vector holding one \<open>1 \<times> 1\<close> matrix and \<open>variableSetIndex = 2\<close>, the call on \<open>N = 3\<close>
  samples and \<open>S = 2\<close> states appends a zero matrix and the result: the vector has three
  entries afterwards, and the first is still \<open>1 \<times> 1\<close>, not \<open>N \<times> S\<close>.
\<close>

theorem spectralSimulation_keeps_earlier_entries:
  "spectralSimulation heap_example [1, 0] False 2 (sim_spectral_example\<lparr>probability := [[[9]]]\<rparr>) =
     Some (sim_spectral_example\<lparr>probability :=
       [[[9]],
        [[0, 0], [0, 0], [0, 0]],
        [[1, 0], [2 / 3 + exp (- 3) / 3, 1 / 3 - exp (- 3) / 3],
         [2 / 3 + exp (- 6) / 3, 1 / 3 - exp (- 6) / 3]]]\<rparr>) \<and>
   length (time sim_spectral_example) = 3 \<and> length [1, 0 :: real] = 2 \<and>
   \<not> has_shape 3 2 [[9]]"
  by (simp add: spectralSimulation_def heap_example_def sim_spectral_example_def sim_example_def
      epoch_example_def epoch_step_def deref_def vec_mat_def block_ok_def set_rows_def Zero_def
      Let_def upt_conv_Cons spectral_term_def add_outer_def has_shape_def numeral_2_eq_2
      numeral_3_eq_3)

section \<open>equilibriumProbability\<close>

text \<open>
  Dense matrices are lists of rows; \<open>ncols\<close> is \<open>cols()\<close> (of the first row: a matrix without
  rows has no columns here).  \<open>mat_mul\<close> and \<open>mat_transpose\<close> are Eigen's product and
  \<open>transpose()\<close> on matrices whose dimensions agree, as they do by construction below.
\<close>

definition ncols :: "real list list \<Rightarrow> nat" where
  "ncols A = (case A of [] \<Rightarrow> 0 | a # _ \<Rightarrow> length a)"

definition mat_mul :: "real list list \<Rightarrow> real list list \<Rightarrow> real list list" where
  "mat_mul A B =
     map (\<lambda>i. map (\<lambda>j. sum_list (map (\<lambda>k. A ! i ! k * B ! k ! j) [0..<length B]))
                 [0..<ncols B]) [0..<length A]"

definition mat_transpose :: "real list list \<Rightarrow> real list list" where
  "mat_transpose A = map (\<lambda>j. map (\<lambda>i. A ! i ! j) [0..<length A]) [0..<ncols A]"

definition identity :: "nat \<Rightarrow> real list list" where
  "identity n = map (\<lambda>i. map (\<lambda>j. if i = j then 1 else 0) [0..<n]) [0..<n]"

text \<open>\<open>S\<close>: \<open>Ones(N, N + 1)\<close> with \<open>S.block(0, 0, N, N) = Q\<close>.\<close>

definition with_ones_column :: "real list list \<Rightarrow> real list list" where
  "with_ones_column Q =
     map (\<lambda>i. map (\<lambda>a. if a < ncols Q then Q ! i ! a else 1) [0..<ncols Q + 1]) [0..<ncols Q]"

text \<open>
  \<open>equilibriumProbability\<close>.  Eigen's \<open>inverse()\<close> is library code: it is the parameter
  \<open>inverse_of\<close>.  The block assignment asserts that \<open>Q\<close> is \<open>N \<times> N\<close>, the product
  \<open>u * (...)\<close> that the dimensions agree (\<open>None\<close> otherwise).
\<close>

definition equilibriumProbability ::
  "(real list list \<Rightarrow> real list list) \<Rightarrow> real list list \<Rightarrow> real list option" where
  "equilibriumProbability inverse_of Q =
     (let N = ncols Q in
      if \<not> has_shape N N Q then None
      else
        let S = with_ones_column Q;
            u = replicate N 1;
            St = mat_transpose S
        in vec_mat u (inverse_of (mat_mul S St)))"

text \<open>\<open>W\<close> is the inverse of the square matrix \<open>M\<close>; a rate matrix is square, has at least
  one state, and each of its rows sums to zero (the diagonal is minus the rate of leaving
  the state).\<close>

definition is_inverse :: "real list list \<Rightarrow> real list list \<Rightarrow> bool" where
  "is_inverse M W \<longleftrightarrow>
     has_shape (length M) (length M) W \<and>
     mat_mul M W = identity (length M) \<and> mat_mul W M = identity (length M)"

definition rate_matrix :: "real list list \<Rightarrow> bool" where
  "rate_matrix Q \<longleftrightarrow>
     Q \<noteq> [] \<and> has_shape (length Q) (length Q) Q \<and> list_all (\<lambda>row. sum_list row = 0) Q"

definition Q_example :: "real list list" where
  "Q_example = [[- 1, 1], [2, - 2]]"


subsection \<open>The algebra, on index functions\<close>

text \<open>
  With \<open>S = [Q | 1]\<close> (\<open>n\<close> rows, columns \<open>0..n\<close>), \<open>M = S S\<^sup>T\<close> (\<open>gram\<close>) and \<open>W\<close> its
  inverse, \<open>T = S\<^sup>T W S\<close> (\<open>proj\<close>) is a symmetric idempotent matrix of trace \<open>n\<close> that
  annihilates \<open>k = (1, ..., 1, 0)\<close> when the rows of \<open>Q\<close> sum to zero.  Then the squares of
  the entries of \<open>I - T - k k\<^sup>T / n\<close> sum to zero, so \<open>T = I - k k\<^sup>T / n\<close>, and row \<open>n\<close> of
  \<open>T\<close>, which is \<open>1 W S\<close>, is the unit vector \<open>(0, ..., 0, 1)\<close>.
\<close>

definition S_of :: "nat \<Rightarrow> (nat \<Rightarrow> nat \<Rightarrow> real) \<Rightarrow> nat \<Rightarrow> nat \<Rightarrow> real" where
  "S_of n Q i a = (if a < n then Q i a else 1)"

definition gram :: "nat \<Rightarrow> (nat \<Rightarrow> nat \<Rightarrow> real) \<Rightarrow> nat \<Rightarrow> nat \<Rightarrow> real" where
  "gram n Q i j = (\<Sum>a\<le>n. S_of n Q i a * S_of n Q j a)"

definition inverse_on :: "nat \<Rightarrow> (nat \<Rightarrow> nat \<Rightarrow> real) \<Rightarrow> (nat \<Rightarrow> nat \<Rightarrow> real) \<Rightarrow> bool" where
  "inverse_on n M W \<longleftrightarrow>
     (\<forall>i<n. \<forall>j<n. (\<Sum>k<n. M i k * W k j) = (if i = j then 1 else 0) \<and>
                    (\<Sum>k<n. W i k * M k j) = (if i = j then 1 else 0))"

definition WS :: "nat \<Rightarrow> (nat \<Rightarrow> nat \<Rightarrow> real) \<Rightarrow> (nat \<Rightarrow> nat \<Rightarrow> real) \<Rightarrow> nat \<Rightarrow> nat \<Rightarrow> real" where
  "WS n Q W j b = (\<Sum>l<n. W j l * S_of n Q l b)"

definition proj :: "nat \<Rightarrow> (nat \<Rightarrow> nat \<Rightarrow> real) \<Rightarrow> (nat \<Rightarrow> nat \<Rightarrow> real) \<Rightarrow> nat \<Rightarrow> nat \<Rightarrow> real" where
  "proj n Q W a b = (\<Sum>i<n. S_of n Q i a * WS n Q W i b)"

lemma sum_delta_right:
  fixes n :: nat
  assumes "j < n"
  shows "(\<Sum>k<n. f k * (if k = j then 1 else 0 :: real)) = f j"
    and "(\<Sum>k<n. f k * (if j = k then 1 else 0 :: real)) = f j"
    and "(\<Sum>k<n. (if k = j then 1 else 0 :: real) * f k) = f j"
    and "(\<Sum>k<n. (if j = k then 1 else 0 :: real) * f k) = f j"
proof -
  have d: "(\<Sum>k<n. if k = j then f k else 0) = f j"
    by (subst sum.delta) (use assms in auto)
  have "(\<Sum>k<n. f k * (if k = j then 1 else 0)) = (\<Sum>k<n. if k = j then f k else 0)"
    by (intro sum.cong refl) simp
  then show "(\<Sum>k<n. f k * (if k = j then 1 else 0 :: real)) = f j" using d by simp
  have "(\<Sum>k<n. f k * (if j = k then 1 else 0)) = (\<Sum>k<n. if k = j then f k else 0)"
    by (intro sum.cong refl) simp
  then show "(\<Sum>k<n. f k * (if j = k then 1 else 0 :: real)) = f j" using d by simp
  have "(\<Sum>k<n. (if k = j then 1 else 0) * f k) = (\<Sum>k<n. if k = j then f k else 0)"
    by (intro sum.cong refl) simp
  then show "(\<Sum>k<n. (if k = j then 1 else 0 :: real) * f k) = f j" using d by simp
  have "(\<Sum>k<n. (if j = k then 1 else 0) * f k) = (\<Sum>k<n. if k = j then f k else 0)"
    by (intro sum.cong refl) simp
  then show "(\<Sum>k<n. (if j = k then 1 else 0 :: real) * f k) = f j" using d by simp
qed

lemma gram_sym: "gram n Q i j = gram n Q j i"
  by (simp add: gram_def mult.commute)

lemma inverse_sym:
  assumes inv: "inverse_on n (gram n Q) W" and i: "i < n" and j: "j < n"
  shows "W i j = W j i"
proof -
  let ?M = "gram n Q"
  have "(\<Sum>k<n. \<Sum>l<n. W k i * ?M k l * W l j) = (\<Sum>k<n. W k i * (\<Sum>l<n. ?M k l * W l j))"
    by (simp add: sum_distrib_left mult.assoc)
  also have "\<dots> = (\<Sum>k<n. W k i * (if k = j then 1 else 0))"
    using inv j by (intro sum.cong refl) (simp add: inverse_on_def)
  also have "\<dots> = W j i"
    by (rule sum_delta_right(1) [OF j])
  finally have 1: "(\<Sum>k<n. \<Sum>l<n. W k i * ?M k l * W l j) = W j i" .
  have "(\<Sum>k<n. \<Sum>l<n. W k i * ?M k l * W l j) = (\<Sum>l<n. \<Sum>k<n. W k i * ?M k l * W l j)"
    by (rule sum.swap)
  also have "\<dots> = (\<Sum>l<n. (\<Sum>k<n. ?M l k * W k i) * W l j)"
  proof (intro sum.cong refl)
    fix l
    have eq: "W k i * ?M k l * W l j = ?M l k * W k i * W l j" for k
      by (simp add: gram_sym [of n Q k l])
    show "(\<Sum>k<n. W k i * ?M k l * W l j) = (\<Sum>k<n. ?M l k * W k i) * W l j"
      unfolding sum_distrib_right by (intro sum.cong refl eq)
  qed
  also have "\<dots> = (\<Sum>l<n. (if l = i then 1 else 0) * W l j)"
    using inv i by (intro sum.cong refl) (simp add: inverse_on_def)
  also have "\<dots> = W i j"
    by (rule sum_delta_right(3) [OF i])
  finally show ?thesis using 1 by simp
qed

lemma WS_St:
  assumes inv: "inverse_on n (gram n Q) W" and j: "j < n" and k: "k < n"
  shows "(\<Sum>c\<le>n. WS n Q W j c * S_of n Q k c) = (if j = k then 1 else 0)"
proof -
  have "(\<Sum>c\<le>n. WS n Q W j c * S_of n Q k c) =
      (\<Sum>c\<le>n. \<Sum>l<n. W j l * (S_of n Q l c * S_of n Q k c))"
    by (simp add: WS_def sum_distrib_right mult.assoc)
  also have "\<dots> = (\<Sum>l<n. \<Sum>c\<le>n. W j l * (S_of n Q l c * S_of n Q k c))"
    by (rule sum.swap)
  also have "\<dots> = (\<Sum>l<n. W j l * gram n Q l k)"
    by (simp add: gram_def sum_distrib_left)
  also have "\<dots> = (if j = k then 1 else 0)"
    using inv j k by (simp add: inverse_on_def)
  finally show ?thesis .
qed

lemma proj_sym:
  assumes inv: "inverse_on n (gram n Q) W"
  shows "proj n Q W a b = proj n Q W b a"
proof -
  have "proj n Q W a b = (\<Sum>i<n. \<Sum>l<n. S_of n Q i a * (W i l * S_of n Q l b))"
    by (simp add: proj_def WS_def sum_distrib_left)
  also have "\<dots> = (\<Sum>l<n. \<Sum>i<n. S_of n Q i a * (W i l * S_of n Q l b))"
    by (rule sum.swap)
  also have "\<dots> = (\<Sum>l<n. \<Sum>i<n. S_of n Q l b * (W l i * S_of n Q i a))"
    by (intro sum.cong refl) (simp add: inverse_sym [OF inv] mult.commute mult.left_commute)
  also have "\<dots> = proj n Q W b a"
    by (simp add: proj_def WS_def sum_distrib_left)
  finally show ?thesis .
qed

lemma proj_idem:
  assumes inv: "inverse_on n (gram n Q) W"
  shows "(\<Sum>c\<le>n. proj n Q W a c * proj n Q W c b) = proj n Q W a b"
proof -
  have "(\<Sum>c\<le>n. proj n Q W a c * proj n Q W c b) =
      (\<Sum>c\<le>n. \<Sum>i<n. \<Sum>k<n. S_of n Q i a * ((WS n Q W i c * S_of n Q k c) * WS n Q W k b))"
    unfolding proj_def sum_product by (intro sum.cong refl) (simp add: algebra_simps)
  also have "\<dots> = (\<Sum>i<n. \<Sum>c\<le>n. \<Sum>k<n. S_of n Q i a * ((WS n Q W i c * S_of n Q k c) * WS n Q W k b))"
    by (rule sum.swap)
  also have "\<dots> = (\<Sum>i<n. \<Sum>k<n. \<Sum>c\<le>n. S_of n Q i a * ((WS n Q W i c * S_of n Q k c) * WS n Q W k b))"
    by (intro sum.cong refl sum.swap)
  also have "\<dots> = (\<Sum>i<n. \<Sum>k<n. S_of n Q i a * ((\<Sum>c\<le>n. WS n Q W i c * S_of n Q k c) * WS n Q W k b))"
    by (simp add: sum_distrib_left sum_distrib_right)
  also have "\<dots> = (\<Sum>i<n. \<Sum>k<n. S_of n Q i a * ((if i = k then 1 else 0) * WS n Q W k b))"
    by (intro sum.cong refl) (simp add: WS_St [OF inv])
  also have "\<dots> = (\<Sum>i<n. S_of n Q i a * WS n Q W i b)"
    by (intro sum.cong refl) (simp add: sum_distrib_left [symmetric] sum_delta_right(4))
  finally show ?thesis by (simp add: proj_def)
qed

lemma proj_trace:
  assumes inv: "inverse_on n (gram n Q) W"
  shows "(\<Sum>a\<le>n. proj n Q W a a) = real n"
proof -
  have "(\<Sum>a\<le>n. proj n Q W a a) = (\<Sum>a\<le>n. \<Sum>i<n. WS n Q W i a * S_of n Q i a)"
    by (simp add: proj_def mult.commute)
  also have "\<dots> = (\<Sum>i<n. \<Sum>a\<le>n. WS n Q W i a * S_of n Q i a)"
    by (rule sum.swap)
  also have "\<dots> = (\<Sum>i<n. 1)"
    by (intro sum.cong refl) (simp add: WS_St [OF inv])
  finally show ?thesis by simp
qed

lemma proj_ones:
  assumes rows: "\<And>i. i < n \<Longrightarrow> (\<Sum>b<n. Q i b) = 0"
  shows "(\<Sum>b<n. proj n Q W a b) = 0"
proof -
  have S: "(\<Sum>b<n. S_of n Q l b) = 0" if "l < n" for l
    using rows [OF that] by (simp add: S_of_def)
  have "(\<Sum>b<n. proj n Q W a b) = (\<Sum>b<n. \<Sum>i<n. \<Sum>l<n. S_of n Q i a * (W i l * S_of n Q l b))"
    by (simp add: proj_def WS_def sum_distrib_left)
  also have "\<dots> = (\<Sum>i<n. \<Sum>b<n. \<Sum>l<n. S_of n Q i a * (W i l * S_of n Q l b))"
    by (rule sum.swap)
  also have "\<dots> = (\<Sum>i<n. \<Sum>l<n. \<Sum>b<n. S_of n Q i a * (W i l * S_of n Q l b))"
    by (intro sum.cong refl sum.swap)
  also have "\<dots> = (\<Sum>i<n. \<Sum>l<n. S_of n Q i a * (W i l * (\<Sum>b<n. S_of n Q l b)))"
    by (simp add: sum_distrib_left)
  also have "\<dots> = 0"
    by (simp add: S)
  finally show ?thesis .
qed

lemma sum_atMost_split: "(\<Sum>b\<le>(n::nat). g b) = (\<Sum>b<n. g b) + (g n :: real)"
  by (simp add: lessThan_Suc_atMost [symmetric])

definition ones0 :: "nat \<Rightarrow> nat \<Rightarrow> real" where
  "ones0 n a = (if a < n then 1 else 0)"

lemma sum_ones0: "(\<Sum>b\<le>n. f b * ones0 n b) = (\<Sum>b<n. f b)"
  by (simp add: sum_atMost_split ones0_def)

definition resid :: "nat \<Rightarrow> (nat \<Rightarrow> nat \<Rightarrow> real) \<Rightarrow> (nat \<Rightarrow> nat \<Rightarrow> real) \<Rightarrow> nat \<Rightarrow> nat \<Rightarrow> real" where
  "resid n Q W a b =
     (if a = b then 1 else 0) - proj n Q W a b - ones0 n a * ones0 n b * inverse (real n)"

lemma resid_square_sum:
  assumes n: "0 < n" and rows: "\<And>i. i < n \<Longrightarrow> (\<Sum>b<n. Q i b) = 0"
    and inv: "inverse_on n (gram n Q) W"
  shows "(\<Sum>a\<le>n. \<Sum>b\<le>n. (resid n Q W a b)\<^sup>2) = 0"
proof -
  let ?T = "proj n Q W" and ?k = "ones0 n"
  let ?D = "\<lambda>a b. if a = b then 1 else 0 :: real"
  define c where "c = inverse (real n)"
  have nc: "real n * c = 1" using n by (simp add: c_def)
  have DD: "?D a b * ?D a b = ?D a b" for a b :: nat by simp
  have "(resid n Q W a b)\<^sup>2 =
      ?D a b * ?D a b + ?T a b * ?T a b + (?k a * ?k a) * (?k b * ?k b) * (c * c)
      - 2 * (?D a b * ?T a b) - 2 * (?D a b * (?k a * ?k b)) * c
      + 2 * (?k a * (?T a b * ?k b)) * c" for a b
    unfolding resid_def c_def [symmetric]
    by (simp only: power2_eq_square) (simp only: algebra_simps)
  then have expand: "(resid n Q W a b)\<^sup>2 =
      ?D a b + ?T a b * ?T b a + (?k a * ?k a) * (?k b * ?k b) * (c * c)
      - 2 * (?D a b * ?T a b) - 2 * (?D a b * (?k a * ?k b)) * c
      + 2 * (?k a * (?T a b * ?k b)) * c" for a b
    unfolding DD proj_sym [OF inv, of b a] .
  have kk: "?k a * ?k a = ?k a" for a by (simp add: ones0_def)
  have sk: "(\<Sum>a\<le>n. ?k a) = real n"
    using sum_ones0 [of "\<lambda>b. 1" n] by simp
  have s1: "(\<Sum>a\<le>n. \<Sum>b\<le>n. ?D a b) = real n + 1"
    by (simp add: sum.delta)
  have s2: "(\<Sum>a\<le>n. \<Sum>b\<le>n. ?T a b * ?T b a) = real n"
    by (simp add: proj_idem [OF inv] proj_trace [OF inv])
  have s3: "(\<Sum>a\<le>n. \<Sum>b\<le>n. (?k a * ?k a) * (?k b * ?k b) * (c * c)) = 1"
  proof -
    have "(\<Sum>a\<le>n. \<Sum>b\<le>n. (?k a * ?k a) * (?k b * ?k b) * (c * c)) =
        (\<Sum>a\<le>n. \<Sum>b\<le>n. ?k a * ?k b) * (c * c)"
      by (simp add: kk sum_distrib_right)
    also have "(\<Sum>a\<le>n. \<Sum>b\<le>n. ?k a * ?k b) = (\<Sum>a\<le>n. ?k a) * (\<Sum>b\<le>n. ?k b)"
      by (simp add: sum_product)
    also have "(\<Sum>a\<le>n. ?k a) * (\<Sum>b\<le>n. ?k b) * (c * c) = (real n * c) * (real n * c)"
      by (simp add: sk)
    finally show ?thesis by (simp add: nc)
  qed
  have s4: "(\<Sum>a\<le>n. \<Sum>b\<le>n. ?D a b * ?T a b) = real n"
  proof -
    have "(\<Sum>b\<le>n. ?D a b * ?T a b) = ?T a a" if "a \<le> n" for a
    proof -
      have "(\<Sum>b\<le>n. ?D a b * ?T a b) = (\<Sum>b\<le>n. if b = a then ?T a b else 0)"
        by (intro sum.cong refl) simp
      also have "\<dots> = ?T a a"
        by (subst sum.delta) (use that in auto)
      finally show ?thesis .
    qed
    then have "(\<Sum>a\<le>n. \<Sum>b\<le>n. ?D a b * ?T a b) = (\<Sum>a\<le>n. ?T a a)"
      by (intro sum.cong refl) simp
    then show ?thesis by (simp add: proj_trace [OF inv])
  qed
  have s5: "(\<Sum>a\<le>n. \<Sum>b\<le>n. ?D a b * (?k a * ?k b)) = real n"
  proof -
    have "(\<Sum>b\<le>n. ?D a b * (?k a * ?k b)) = ?k a" if "a \<le> n" for a
    proof -
      have "(\<Sum>b\<le>n. ?D a b * (?k a * ?k b)) = (\<Sum>b\<le>n. if b = a then ?k a * ?k b else 0)"
        by (intro sum.cong refl) simp
      also have "\<dots> = ?k a * ?k a"
        by (subst sum.delta) (use that in auto)
      finally show ?thesis by (simp add: kk)
    qed
    then have "(\<Sum>a\<le>n. \<Sum>b\<le>n. ?D a b * (?k a * ?k b)) = (\<Sum>a\<le>n. ?k a)"
      by (intro sum.cong refl) simp
    then show ?thesis by (simp add: sk)
  qed
  have s6: "(\<Sum>a\<le>n. \<Sum>b\<le>n. ?k a * (?T a b * ?k b)) = 0"
  proof -
    have "(\<Sum>b\<le>n. ?T a b * ?k b) = 0" for a
      by (simp add: sum_ones0 proj_ones [OF rows])
    then show ?thesis
      by (simp add: sum_distrib_left [symmetric])
  qed
  have "(\<Sum>a\<le>n. \<Sum>b\<le>n. (resid n Q W a b)\<^sup>2) =
      (\<Sum>a\<le>n. \<Sum>b\<le>n. ?D a b) + (\<Sum>a\<le>n. \<Sum>b\<le>n. ?T a b * ?T b a) +
      (\<Sum>a\<le>n. \<Sum>b\<le>n. (?k a * ?k a) * (?k b * ?k b) * (c * c))
      - 2 * (\<Sum>a\<le>n. \<Sum>b\<le>n. ?D a b * ?T a b)
      - 2 * (\<Sum>a\<le>n. \<Sum>b\<le>n. ?D a b * (?k a * ?k b)) * c
      + 2 * (\<Sum>a\<le>n. \<Sum>b\<le>n. ?k a * (?T a b * ?k b)) * c"
    unfolding expand
    by (simp only: sum.distrib sum_subtractf sum_distrib_left sum_distrib_right)
  also have "\<dots> = (real n + 1) + real n + 1 - 2 * real n - 2 * real n * c + 2 * 0 * c"
    unfolding s1 s2 s3 s4 s5 s6 ..
  also have "\<dots> = 0" using nc by (simp add: algebra_simps)
  finally show ?thesis .
qed

lemma resid_zero:
  assumes n: "0 < n" and rows: "\<And>i. i < n \<Longrightarrow> (\<Sum>b<n. Q i b) = 0"
    and inv: "inverse_on n (gram n Q) W" and a: "a \<le> n" and b: "b \<le> n"
  shows "resid n Q W a b = 0"
proof -
  have outer: "(\<Sum>b\<le>n. (resid n Q W a b)\<^sup>2) = 0"
  proof -
    have "(\<Sum>a\<in>{..n}. \<Sum>b\<le>n. (resid n Q W a b)\<^sup>2) = 0 \<longleftrightarrow>
        (\<forall>a\<in>{..n}. (\<Sum>b\<le>n. (resid n Q W a b)\<^sup>2) = 0)"
      by (intro sum_nonneg_eq_0_iff) (auto intro: sum_nonneg)
    with resid_square_sum [OF n rows inv] a show ?thesis by simp
  qed
  have "(\<Sum>b\<in>{..n}. (resid n Q W a b)\<^sup>2) = 0 \<longleftrightarrow> (\<forall>b\<in>{..n}. (resid n Q W a b)\<^sup>2 = 0)"
    by (intro sum_nonneg_eq_0_iff) auto
  with outer b show ?thesis by simp
qed

lemma stationary_sums:
  assumes n: "0 < n" and rows: "\<And>i. i < n \<Longrightarrow> (\<Sum>b<n. Q i b) = 0"
    and inv: "inverse_on n (gram n Q) W"
  shows "b < n \<Longrightarrow> (\<Sum>j<n. (\<Sum>i<n. W i j) * Q j b) = 0"
    and "(\<Sum>j<n. (\<Sum>i<n. W i j)) = 1"
proof -
  have row: "(\<Sum>j<n. (\<Sum>i<n. W i j) * S_of n Q j b) = (if b = n then 1 else 0)" if b: "b \<le> n" for b
  proof -
    have "(\<Sum>j<n. (\<Sum>i<n. W i j) * S_of n Q j b) = (\<Sum>j<n. \<Sum>i<n. W i j * S_of n Q j b)"
      by (simp add: sum_distrib_right)
    also have "\<dots> = (\<Sum>i<n. \<Sum>j<n. W i j * S_of n Q j b)"
      by (rule sum.swap)
    also have "\<dots> = proj n Q W n b"
      by (simp add: proj_def WS_def S_of_def)
    also have "\<dots> = (if b = n then 1 else 0)"
      using resid_zero [OF n rows inv le_refl b] by (auto simp: resid_def ones0_def)
    finally show ?thesis .
  qed
  show "(\<Sum>j<n. (\<Sum>i<n. W i j) * Q j b) = 0" if "b < n"
    using row [of b] that by (simp add: S_of_def)
  show "(\<Sum>j<n. (\<Sum>i<n. W i j)) = 1"
    using row [of n] by (simp add: S_of_def)
qed

subsection \<open>From the lists to the index functions\<close>

lemma sum_list_upt: "sum_list (map f [0..<n]) = (\<Sum>k<n. f k :: real)"
  by (simp add: interv_sum_list_conv_sum_set_nat atLeast0LessThan)

lemma sum_list_nth: "sum_list xs = (\<Sum>k<length xs. xs ! k :: real)"
  by (simp add: sum_list_sum_nth atLeast0LessThan)

lemma ncols_shape: "has_shape r c A \<Longrightarrow> 0 < r \<Longrightarrow> ncols A = c"
  by (cases A) (auto simp: has_shape_def ncols_def)

lemma nth_shape: "has_shape r c A \<Longrightarrow> i < r \<Longrightarrow> length (A ! i) = c"
  by (auto simp: has_shape_def list_all_length)

lemma nth_map_upt0: "a < m \<Longrightarrow> map f [0..<m] ! a = f a"
  by simp

lemma ncols_map_upt: "0 < n \<Longrightarrow> ncols (map f [0..<n]) = length (f 0)"
  by (simp add: ncols_def upt_conv_Cons)

lemma length_mat_mul: "length (mat_mul A B) = length A"
  by (simp add: mat_mul_def)

lemma nth_mat_mul:
  "i < length A \<Longrightarrow> j < ncols B \<Longrightarrow>
     mat_mul A B ! i ! j = (\<Sum>k<length B. A ! i ! k * B ! k ! j)"
  by (simp add: mat_mul_def sum_list_upt)

lemma ncols_mat_mul: "0 < length A \<Longrightarrow> ncols (mat_mul A B) = ncols B"
  by (simp add: mat_mul_def ncols_map_upt)

lemma map_upt_zero:
  assumes "\<And>b. b < n \<Longrightarrow> f b = (0::real)"
  shows "map f [0..<n] = replicate n 0"
  by (rule nth_equalityI) (simp_all add: assms)

lemma equilibrium_stationary:
  assumes rate: "rate_matrix Q"
    and inv: "is_inverse (mat_mul (with_ones_column Q) (mat_transpose (with_ones_column Q))) W"
  shows "\<exists>p. vec_mat (replicate (length Q) 1) W = Some p \<and> length p = length Q \<and>
    vec_mat p Q = Some (replicate (length Q) 0) \<and> sum_list p = 1"
proof -
  let ?n = "length Q"
  let ?S = "with_ones_column Q"
  let ?St = "mat_transpose ?S"
  let ?M = "mat_mul ?S ?St"
  let ?Qf = "\<lambda>i j. Q ! i ! j" and ?Wf = "\<lambda>i j. W ! i ! j"
  from rate have n: "0 < ?n" and shQ: "has_shape ?n ?n Q"
    and rows0: "\<And>i. i < ?n \<Longrightarrow> sum_list (Q ! i) = 0"
    by (auto simp: rate_matrix_def list_all_length)
  have nc: "ncols Q = ?n" by (rule ncols_shape [OF shQ n])
  have lenS: "length ?S = ?n" by (simp add: with_ones_column_def nc)
  have S_nth: "?S ! i ! a = S_of ?n ?Qf i a" if "i < ?n" "a \<le> ?n" for i a
    using that by (simp add: with_ones_column_def nc S_of_def nth_map_upt0 del: upt_Suc)
  have ncS: "ncols ?S = Suc ?n"
    using n by (simp add: with_ones_column_def nc ncols_map_upt)
  have lenSt: "length ?St = Suc ?n" by (simp add: mat_transpose_def ncS)
  have St_nth: "?St ! a ! i = ?S ! i ! a" if "i < ?n" "a \<le> ?n" for i a
    using that by (simp add: mat_transpose_def ncS lenS nth_map_upt0 del: upt_Suc)
  have ncSt: "ncols ?St = ?n"
    by (simp add: mat_transpose_def ncS lenS ncols_map_upt del: upt_Suc)
  have lenM: "length ?M = ?n" by (simp add: length_mat_mul lenS)
  have M_nth: "?M ! i ! j = gram ?n ?Qf i j" if "i < ?n" "j < ?n" for i j
  proof -
    have "?M ! i ! j = (\<Sum>a<Suc ?n. ?S ! i ! a * ?St ! a ! j)"
      using that by (simp add: nth_mat_mul lenS ncSt lenSt)
    also have "\<dots> = (\<Sum>a\<le>?n. S_of ?n ?Qf i a * S_of ?n ?Qf j a)"
      unfolding lessThan_Suc_atMost using that by (intro sum.cong refl) (simp add: St_nth S_nth)
    finally show ?thesis by (simp add: gram_def)
  qed
  from inv have shW: "has_shape ?n ?n W"
    and MW: "mat_mul ?M W = identity ?n" and WM: "mat_mul W ?M = identity ?n"
    by (simp_all add: is_inverse_def lenM)
  have lenW: "length W = ?n" using shW by (simp add: has_shape_def)
  have ncW: "ncols W = ?n" by (rule ncols_shape [OF shW n])
  have ncM: "ncols ?M = ?n"
    using n by (simp add: ncols_mat_mul lenS ncSt)
  have inv_on: "inverse_on ?n (gram ?n ?Qf) ?Wf"
    unfolding inverse_on_def
  proof (intro allI impI conjI)
    fix i j assume i: "i < ?n" and j: "j < ?n"
    have "mat_mul ?M W ! i ! j = (\<Sum>k<?n. ?M ! i ! k * W ! k ! j)"
      using i j by (simp add: nth_mat_mul lenM ncW lenW)
    also have "\<dots> = (\<Sum>k<?n. gram ?n ?Qf i k * W ! k ! j)"
      using i by (intro sum.cong refl) (simp add: M_nth)
    finally show "(\<Sum>k<?n. gram ?n ?Qf i k * W ! k ! j) = (if i = j then 1 else 0)"
      using i j by (simp add: MW identity_def)
    have "mat_mul W ?M ! i ! j = (\<Sum>k<?n. W ! i ! k * ?M ! k ! j)"
      using i j by (simp add: nth_mat_mul lenM ncM lenW)
    also have "\<dots> = (\<Sum>k<?n. W ! i ! k * gram ?n ?Qf k j)"
      using j by (intro sum.cong refl) (simp add: M_nth)
    finally show "(\<Sum>k<?n. W ! i ! k * gram ?n ?Qf k j) = (if i = j then 1 else 0)"
      using i j by (simp add: WM identity_def)
  qed
  have rows: "(\<Sum>b<?n. ?Qf i b) = 0" if "i < ?n" for i
    using rows0 [OF that] nth_shape [OF shQ that] by (simp add: sum_list_nth)
  define p where "p = map (\<lambda>j. sum_list (map (\<lambda>i. replicate ?n 1 ! i * W ! i ! j) [0..<?n])) [0..<?n]"
  obtain w ws where W: "W = w # ws" using lenW n by (cases W) auto
  have lw: "length w = ?n" using nth_shape [OF shW n] by (simp add: W)
  have allW: "list_all (\<lambda>row. length row = ?n) W" using shW by (simp add: has_shape_def)
  have pW: "vec_mat (replicate ?n 1) W = Some p"
    using lenW allW by (simp add: vec_mat_def W lw p_def)
  have lenp: "length p = ?n" by (simp add: p_def)
  have p_nth: "p ! j = (\<Sum>i<?n. W ! i ! j)" if "j < ?n" for j
    using that by (simp add: p_def sum_list_upt)
  obtain q qs where Q: "Q = q # qs" using n by (cases Q) auto
  have lq: "length q = ?n" using nth_shape [OF shQ n] by (simp add: Q)
  have allQ: "list_all (\<lambda>row. length row = ?n) Q" using shQ by (simp add: has_shape_def)
  have "vec_mat p Q = Some (map (\<lambda>b. sum_list (map (\<lambda>j. p ! j * Q ! j ! b) [0..<?n])) [0..<?n])"
    using allQ lenp by (simp add: vec_mat_def Q lq)
  also have "map (\<lambda>b. sum_list (map (\<lambda>j. p ! j * Q ! j ! b) [0..<?n])) [0..<?n] = replicate ?n 0"
  proof (rule map_upt_zero)
    fix b assume b: "b < ?n"
    have "sum_list (map (\<lambda>j. p ! j * Q ! j ! b) [0..<?n]) = (\<Sum>j<?n. p ! j * Q ! j ! b)"
      by (rule sum_list_upt)
    also have "\<dots> = (\<Sum>j<?n. (\<Sum>i<?n. W ! i ! j) * Q ! j ! b)"
      by (intro sum.cong refl) (simp add: p_nth)
    also have "\<dots> = 0"
      by (rule stationary_sums(1) [OF n rows inv_on b])
    finally show "sum_list (map (\<lambda>j. p ! j * Q ! j ! b) [0..<?n]) = 0" .
  qed
  finally have pQ: "vec_mat p Q = Some (replicate ?n 0)" .
  have "sum_list p = (\<Sum>j<?n. p ! j)"
    by (simp add: sum_list_nth lenp)
  also have "\<dots> = (\<Sum>j<?n. (\<Sum>i<?n. W ! i ! j))"
    by (intro sum.cong refl) (simp add: p_nth)
  also have "\<dots> = 1"
    by (rule stationary_sums(2) [OF n rows inv_on])
  finally have "sum_list p = 1" .
  with pW pQ lenp show ?thesis by simp
qed

text \<open>
  C7.  For every rate matrix \<open>Q\<close> (square, at least one state, every row summing to zero)
  such that \<open>S * S\<^sup>T\<close> with \<open>S = [Q | 1]\<close> is invertible (\<open>inverse()\<close> returns its two-sided
  inverse), \<open>equilibriumProbability\<close> returns the row vector \<open>p = 1 * (S * S\<^sup>T)\<^sup>-\<^sup>1\<close>, and
  this \<open>p\<close> satisfies \<open>p * Q = 0\<close> and its entries sum to \<open>1\<close>.
\<close>

theorem equilibriumProbability_stationary:
  assumes "rate_matrix Q"
    and "is_inverse (mat_mul (with_ones_column Q) (mat_transpose (with_ones_column Q)))
           (inverse_of (mat_mul (with_ones_column Q) (mat_transpose (with_ones_column Q))))"
  shows "\<exists>p. equilibriumProbability inverse_of Q = Some p \<and>
    vec_mat (replicate (length Q) 1)
      (inverse_of (mat_mul (with_ones_column Q) (mat_transpose (with_ones_column Q)))) = Some p \<and>
    length p = length Q \<and> vec_mat p Q = Some (replicate (length Q) 0) \<and> sum_list p = 1"
proof -
  from assms(1) have n: "0 < length Q" and sh: "has_shape (length Q) (length Q) Q"
    by (auto simp: rate_matrix_def)
  have nc: "ncols Q = length Q" by (rule ncols_shape [OF sh n])
  from equilibrium_stationary [OF assms] obtain p where
    p: "vec_mat (replicate (length Q) 1)
      (inverse_of (mat_mul (with_ones_column Q) (mat_transpose (with_ones_column Q)))) = Some p"
    and rest: "length p = length Q" "vec_mat p Q = Some (replicate (length Q) 0)" "sum_list p = 1"
    by blast
  have "equilibriumProbability inverse_of Q = Some p"
    using sh p by (simp add: equilibriumProbability_def Let_def nc)
  with p rest show ?thesis by blast
qed

theorem equilibriumProbability_stationary_witness:
  "rate_matrix Q_example \<and>
   is_inverse (mat_mul (with_ones_column Q_example) (mat_transpose (with_ones_column Q_example)))
     [[1 / 2, 1 / 6], [1 / 6, 1 / 6]] \<and>
   equilibriumProbability (\<lambda>M. [[1 / 2, 1 / 6], [1 / 6, 1 / 6]]) Q_example = Some [2 / 3, 1 / 3] \<and>
   vec_mat [2 / 3, 1 / 3] Q_example = Some [0, 0] \<and> sum_list [2 / 3, 1 / 3 :: real] = 1"
proof -
  have r: "rate_matrix Q_example" by code_simp
  have i: "is_inverse (mat_mul (with_ones_column Q_example) (mat_transpose (with_ones_column Q_example)))
     ((\<lambda>M. [[1 / 2, 1 / 6], [1 / 6, 1 / 6]])
        (mat_mul (with_ones_column Q_example) (mat_transpose (with_ones_column Q_example))))"
    by code_simp
  have v: "vec_mat (replicate (length Q_example) 1) [[1 / 2, 1 / 6], [1 / 6, 1 / 6]] = Some [2 / 3, 1 / 3]"
    by code_simp
  have l: "replicate (length Q_example) (0::real) = [0, 0]" by code_simp
  from equilibriumProbability_stationary [OF r i] v l
  have "equilibriumProbability (\<lambda>M. [[1 / 2, 1 / 6], [1 / 6, 1 / 6]]) Q_example = Some [2 / 3, 1 / 3] \<and>
      vec_mat [2 / 3, 1 / 3] Q_example = Some [0, 0] \<and> sum_list [2 / 3, 1 / 3 :: real] = 1"
    by auto
  with r i show ?thesis by simp
qed

section \<open>Simulation::getProbabilityFromEventChains\<close>

text \<open>\<open>P(t, s) += x\<close>, and the end of the sample interval that starts at sample \<open>t\<close>:
  \<open>t + 1 < numPts ? time[t + 1] : endTime\<close>.\<close>

definition add_at :: "real list list \<Rightarrow> nat \<Rightarrow> nat \<Rightarrow> real \<Rightarrow> real list list" where
  "add_at P t s x = P[t := (P ! t)[s := P ! t ! s + x]]"

definition interval_end :: "real list \<Rightarrow> real \<Rightarrow> nat \<Rightarrow> real" where
  "interval_end tv endT t = (if t + 1 < length tv then tv ! (t + 1) else endT)"

text \<open>
  The \<open>while\<close> loop over one event chain: \<open>evs\<close> is the chain from \<open>eventIter\<close> on.  Every
  iteration advances \<open>t\<close> or \<open>eventIter\<close>.  An event state outside the columns of \<open>P\<close> is an
  out-of-range write, a sample interval of length zero a division by zero (the entry
  would not be finite): both are the result \<open>None\<close>.  No abort.
\<close>

function sample_chain ::
  "real list \<Rightarrow> real \<Rightarrow> nat \<Rightarrow> nat \<Rightarrow> MonteCarloEvent list \<Rightarrow> real \<Rightarrow> real \<Rightarrow> real \<Rightarrow>
   real \<Rightarrow> real \<Rightarrow> real list list \<Rightarrow> real list list option" where
  "sample_chain tv endT numStates t evs sampleIntervalStart sampleIntervalEnd sampleInterval
       eventStart eventEnd P =
     (case evs of
        [] \<Rightarrow> Some P
      | ev # rest \<Rightarrow>
          if t < length tv then
            if \<not> (0 \<le> state ev \<and> state ev < int numStates \<and> t < length P \<and>
                  nat (state ev) < length (P ! t)) then None
            else if eventStart \<le> sampleIntervalStart \<and> eventEnd \<ge> sampleIntervalEnd then
              sample_chain tv endT numStates (t + 1) evs sampleIntervalEnd
                (interval_end tv endT (t + 1)) (interval_end tv endT (t + 1) - sampleIntervalEnd)
                eventStart eventEnd (add_at P t (nat (state ev)) 1)
            else if eventStart \<le> sampleIntervalStart then
              (if sampleInterval = 0 then None
               else
                 (case rest of
                    [] \<Rightarrow> Some (add_at P t (nat (state ev))
                                 ((eventEnd - sampleIntervalStart) / sampleInterval))
                  | ev' # _ \<Rightarrow>
                      sample_chain tv endT numStates t rest sampleIntervalStart sampleIntervalEnd
                        sampleInterval eventEnd (eventEnd + ev_duration ev')
                        (add_at P t (nat (state ev))
                           ((eventEnd - sampleIntervalStart) / sampleInterval))))
            else if eventEnd \<ge> sampleIntervalEnd then
              (if sampleInterval = 0 then None
               else
                 sample_chain tv endT numStates (t + 1) evs sampleIntervalEnd
                   (interval_end tv endT (t + 1)) (interval_end tv endT (t + 1) - sampleIntervalEnd)
                   eventStart eventEnd
                   (add_at P t (nat (state ev)) ((sampleIntervalEnd - eventStart) / sampleInterval)))
            else
              (if sampleInterval = 0 then None
               else
                 (case rest of
                    [] \<Rightarrow> Some (add_at P t (nat (state ev)) (ev_duration ev / sampleInterval))
                  | ev' # _ \<Rightarrow>
                      sample_chain tv endT numStates t rest sampleIntervalStart sampleIntervalEnd
                        sampleInterval eventEnd (eventEnd + ev_duration ev')
                        (add_at P t (nat (state ev)) (ev_duration ev / sampleInterval))))
          else Some P)"
  by pat_completeness auto
termination
  by (relation "measure (\<lambda>(tv, endT, numStates, t, evs, rest). (length tv - t) + length evs)")
     auto

declare sample_chain.simps [simp del]

text \<open>The loop over the chains.  \<open>time[0]\<close> of an empty vector and
  \<open>eventIter->duration\<close> of an empty chain are out-of-range reads.  The event clock starts
  at \<open>eventStart = 0\<close>, the sample clock at \<open>time[0]\<close>.\<close>

fun sample_chains ::
  "real list \<Rightarrow> real \<Rightarrow> nat \<Rightarrow> MonteCarloEvent list list \<Rightarrow> real list list \<Rightarrow>
   real list list option" where
  "sample_chains tv endT numStates [] P = Some P"
| "sample_chains tv endT numStates (eventChain # eventChains) P =
     (case (tv, eventChain) of
        (t0 # _, ev # _) \<Rightarrow>
          (case sample_chain tv endT numStates 0 eventChain t0 (interval_end tv endT 0)
                  (interval_end tv endT 0 - t0) 0 (0 + ev_duration ev) P of
             None \<Rightarrow> None
           | Some P' \<Rightarrow> sample_chains tv endT numStates eventChains P')
      | _ \<Rightarrow> None)"

text \<open>\<open>P.setZero(numPts, numStates)\<close>, the chains, and \<open>P /= eventChains.size()\<close>.\<close>

definition getProbabilityFromEventChains ::
  "Simulation \<Rightarrow> nat \<Rightarrow> MonteCarloEvent list list \<Rightarrow> real list list option" where
  "getProbabilityFromEventChains sim numStates eventChains =
     (case sample_chains (time sim) (endTime sim) numStates eventChains
             (Zero (length (time sim)) numStates) of
        None \<Rightarrow> None
      | Some P \<Rightarrow>
          if eventChains = [] then None
          else Some (map (map (\<lambda>x. x / real (length eventChains))) P))"

subsection \<open>A protocol that does not start at time zero\<close>

definition sim_late_start :: Simulation where
  "sim_late_start =
     sim_example\<lparr>time := [1, 2, 3], endTime := 3,
       epochs := [(epoch_example 1 1 0 1 0)\<lparr>uniqueEpoch := Some 0\<rparr>,
                  (epoch_example 2 1 1 2 5)\<lparr>uniqueEpoch := Some 1\<rparr>]\<rparr>"

definition chain_example :: "MonteCarloEvent list" where
  "chain_example = [\<lparr>state = 0, ev_duration = 1 / 2\<rparr>, \<lparr>state = 1, ev_duration = 5 / 2\<rparr>]"

text \<open>
  C4 (the code fails the claim).  A protocol with start \<open>1\<close>, duration \<open>2\<close> and sample
  interval \<open>1\<close>: samples at \<open>[1, 2, 3]\<close>, \<open>endTime = 3\<close>.  One chain of two events with
  durations \<open>1/2\<close> and \<open>5/2\<close> (not negative, total \<open>endTime\<close>): the first event ends before the
  first sample interval \<open>[1, 2)\<close> starts, the branch \<open>eventStart <= sampleIntervalStart\<close>
  ("event stopped mid sample interval") adds
  \<open>(eventEnd - sampleIntervalStart) / sampleInterval = -1/2\<close>, and the first row of \<open>P\<close> is
  \<open>[-1/2, 1]\<close>: an entry outside \<open>[0, 1]\<close> and a row sum of \<open>1/2\<close>.
\<close>

theorem getProbabilityFromEventChains_late_start:
  "getProbabilityFromEventChains sim_late_start 2 [chain_example] =
     Some [[- (1 / 2), 1], [0, 1], [0, 1]] \<and>
   list_all (\<lambda>ev. 0 \<le> ev_duration ev) chain_example \<and>
   sum_list (map ev_duration chain_example) = endTime sim_late_start \<and>
   sum_list [- (1 / 2), 1 :: real] \<noteq> 1"
  by code_simp

subsection \<open>Protocols that start at time zero\<close>

text \<open>
  The sample grid starts at time zero, where the clock of the events starts, is strictly
  increasing and does not go beyond \<open>endTime\<close>; the events of a chain have non-negative
  durations that sum to \<open>endTime\<close> and states that are columns of \<open>P\<close>.
\<close>

definition grid_from_zero :: "real list \<Rightarrow> real \<Rightarrow> bool" where
  "grid_from_zero tv endT \<longleftrightarrow> tv \<noteq> [] \<and> sorted_wrt (<) tv \<and> tv ! 0 = 0 \<and> last tv \<le> endT"

definition chain_wf :: "nat \<Rightarrow> real \<Rightarrow> MonteCarloEvent list \<Rightarrow> bool" where
  "chain_wf numStates endT evs \<longleftrightarrow>
     evs \<noteq> [] \<and> sum_list (map ev_duration evs) = endT \<and>
     list_all (\<lambda>ev. 0 \<le> ev_duration ev \<and> 0 \<le> state ev \<and> state ev < int numStates) evs"

text \<open>
  Loop invariant for one chain: against \<open>P0\<close>, the matrix before the chain, every row before
  \<open>t\<close> has gained \<open>1\<close> in total, row \<open>t\<close> the fraction \<open>c\<close> of the current sample interval that the
  events so far cover, the later rows nothing, and no entry has decreased.
\<close>

definition covered :: "real list list \<Rightarrow> real list list \<Rightarrow> nat \<Rightarrow> real \<Rightarrow> bool" where
  "covered P0 P t c \<longleftrightarrow>
     length P = length P0 \<and>
     (\<forall>r < length P0. length (P ! r) = length (P0 ! r) \<and>
        sum_list (P ! r) = sum_list (P0 ! r) + (if r < t then 1 else if r = t then c else 0) \<and>
        (\<forall>j < length (P0 ! r). P0 ! r ! j \<le> P ! r ! j))"

lemma sum_list_add_entry:
  fixes xs :: "real list"
  shows "s < length xs \<Longrightarrow> sum_list (xs[s := xs ! s + x]) = sum_list xs + x"
  by (induction xs arbitrary: s) (auto split: nat.splits)

lemma covered_add_at:
  assumes "covered P0 P t c" and "t < length P0" and "s < length (P0 ! t)" and "0 \<le> x"
  shows "covered P0 (add_at P t s x) t (c + x)"
proof -
  from assms(1) have len: "length P = length P0"
    and rows: "\<And>r. r < length P0 \<Longrightarrow> length (P ! r) = length (P0 ! r)"
    and sums: "\<And>r. r < length P0 \<Longrightarrow>
      sum_list (P ! r) = sum_list (P0 ! r) + (if r < t then 1 else if r = t then c else 0)"
    and mono: "\<And>r j. r < length P0 \<Longrightarrow> j < length (P0 ! r) \<Longrightarrow> P0 ! r ! j \<le> P ! r ! j"
    by (simp_all add: covered_def)
  have s: "s < length (P ! t)" using rows [OF assms(2)] assms(3) by simp
  have "length (add_at P t s x ! r) = length (P0 ! r) \<and>
      sum_list (add_at P t s x ! r) =
        sum_list (P0 ! r) + (if r < t then 1 else if r = t then c + x else 0) \<and>
      (\<forall>j < length (P0 ! r). P0 ! r ! j \<le> add_at P t s x ! r ! j)"
    if r: "r < length P0" for r
  proof (cases "r = t")
    case True
    have "P0 ! t ! j \<le> (P ! t)[s := P ! t ! s + x] ! j" if "j < length (P0 ! t)" for j
      using mono [OF assms(2) that] assms(4) rows [OF assms(2)] that
      by (cases "j = s") (simp_all add: nth_list_update)
    then show ?thesis
      using True r len rows [OF r] sums [OF r] s
      by (simp add: add_at_def sum_list_add_entry)
  next
    case False
    then show ?thesis
      using r len rows [OF r] sums [OF r] mono [OF r]
      by (simp add: add_at_def)
  qed
  then show ?thesis
    unfolding covered_def using len by (simp add: add_at_def)
qed

lemma covered_next:
  assumes "covered P0 P t 1"
  shows "covered P0 P (Suc t) 0"
  using assms unfolding covered_def by (auto simp: less_Suc_eq)

lemma grid_interval:
  assumes "grid_from_zero tv endT" and "t < length tv"
  shows "tv ! t \<le> interval_end tv endT t" and "interval_end tv endT t \<le> endT"
    and "Suc t < length tv \<Longrightarrow> interval_end tv endT t = tv ! Suc t"
    and "Suc t < length tv \<Longrightarrow> tv ! t < tv ! Suc t"
proof -
  from assms have sw: "sorted_wrt (<) tv" and ne: "tv \<noteq> []" and fin: "last tv \<le> endT"
    by (simp_all add: grid_from_zero_def)
  have mono: "tv ! i \<le> tv ! j" if "i \<le> j" "j < length tv" for i j
    using sorted_wrt_nth_less [OF sw, of i j] that by (cases "i = j") auto
  have lastle: "tv ! i \<le> endT" if "i < length tv" for i
  proof -
    from that have "i \<le> length tv - 1" by simp
    from mono [OF this] ne have "tv ! i \<le> tv ! (length tv - 1)" by simp
    with fin ne show ?thesis by (simp add: last_conv_nth)
  qed
  show "Suc t < length tv \<Longrightarrow> tv ! t < tv ! Suc t"
    using sorted_wrt_nth_less [OF sw, of t "Suc t"] by simp
  show "Suc t < length tv \<Longrightarrow> interval_end tv endT t = tv ! Suc t"
    by (simp add: interval_end_def)
  show "tv ! t \<le> interval_end tv endT t"
    using mono [of t "Suc t"] lastle [OF assms(2)] by (simp add: interval_end_def)
  show "interval_end tv endT t \<le> endT"
    using lastle [of "Suc t"] by (simp add: interval_end_def)
qed

lemma covered_end:
  "covered P0 P t c \<Longrightarrow> length P0 \<le> t \<Longrightarrow> covered P0 P (length P0) 0"
  unfolding covered_def by auto

lemma sample_chain_covers:
  assumes grid: "grid_from_zero tv endT"
    and shape: "has_shape (length tv) numStates P0"
  shows "t \<le> length tv \<Longrightarrow>
    list_all (\<lambda>ev. 0 \<le> ev_duration ev \<and> 0 \<le> state ev \<and> state ev < int numStates) (ev # rest) \<Longrightarrow>
    ee = es + ev_duration ev \<Longrightarrow> ee + sum_list (map ev_duration rest) = endT \<Longrightarrow>
    (t < length tv \<Longrightarrow> sIS = tv ! t \<and> sIE = interval_end tv endT t \<and> si = sIE - sIS \<and>
       (es \<le> sIS \<or> es < sIE) \<and> sIS \<le> ee) \<Longrightarrow>
    covered P0 P t (if sIS < es then (es - sIS) / si else 0) \<Longrightarrow>
    \<exists>P'. sample_chain tv endT numStates t (ev # rest) sIS sIE si es ee P = Some P' \<and>
      covered P0 P' (length tv) 0"
proof (induction "(length tv - t) + length rest" arbitrary: t ev rest sIS sIE si es ee P
    rule: less_induct)
  case less
  from shape have lenP0: "length P0 = length tv"
    and rowsP0: "\<And>r. r < length tv \<Longrightarrow> length (P0 ! r) = numStates"
    by (simp_all add: has_shape_def list_all_length)
  show ?case
  proof (cases "t < length tv")
    case False
    with less.prems(1) have "t = length tv" by simp
    then have "sample_chain tv endT numStates t (ev # rest) sIS sIE si es ee P = Some P"
      by (subst sample_chain.simps) simp
    moreover have "covered P0 P (length tv) 0"
      using covered_end [OF less.prems(6)] \<open>t = length tv\<close> lenP0 by simp
    ultimately show ?thesis by simp
  next
    case True
    from less.prems(5) [OF True] have sIS: "sIS = tv ! t" and sIE: "sIE = interval_end tv endT t"
      and si: "si = sIE - sIS" and A: "es \<le> sIS \<or> es < sIE" and B: "sIS \<le> ee"
      by blast+
    from grid_interval [OF grid True] have le: "sIS \<le> sIE" and fin: "sIE \<le> endT"
      and nxt: "Suc t < length tv \<Longrightarrow> sIE = tv ! Suc t"
      by (simp_all add: sIS sIE)
    from less.prems(2) have d: "0 \<le> ev_duration ev" and st0: "0 \<le> state ev"
      and st1: "state ev < int numStates"
      and restok: "list_all (\<lambda>ev. 0 \<le> ev_duration ev \<and> 0 \<le> state ev \<and> state ev < int numStates) rest"
      by simp_all
    from less.prems(6) have lenP: "length P = length tv"
      and rowP: "length (P ! t) = numStates"
      using True lenP0 rowsP0 [OF True] by (simp_all add: covered_def)
    have t0: "t < length P0" using True lenP0 by simp
    have s0: "nat (state ev) < length (P0 ! t)" using st0 st1 rowsP0 [OF True] by simp
    have valid: "0 \<le> state ev \<and> state ev < int numStates \<and> t < length P \<and>
        nat (state ev) < length (P ! t)"
      using st0 st1 True lenP rowP by simp
    have restsum: "0 \<le> sum_list (map ev_duration rest)"
      using restok by (auto simp: list_all_iff intro!: sum_list_nonneg)
    have advance: "\<exists>P'. sample_chain tv endT numStates (Suc t) (ev # rest) sIE
        (interval_end tv endT (Suc t)) (interval_end tv endT (Suc t) - sIE) es ee Q = Some P' \<and>
        covered P0 P' (length tv) 0"
      if Q: "covered P0 Q t 1" and e1: "es \<le> sIE" and e2: "sIE \<le> ee" for Q
    proof (rule less.hyps)
      show "length tv - Suc t + length rest < length tv - t + length rest" using True by simp
      show "Suc t \<le> length tv" using True by simp
      show "list_all (\<lambda>ev. 0 \<le> ev_duration ev \<and> 0 \<le> state ev \<and> state ev < int numStates)
          (ev # rest)" by (rule less.prems(2))
      show "ee = es + ev_duration ev" by (rule less.prems(3))
      show "ee + sum_list (map ev_duration rest) = endT" by (rule less.prems(4))
      show "sIE = tv ! Suc t \<and> interval_end tv endT (Suc t) = interval_end tv endT (Suc t) \<and>
          interval_end tv endT (Suc t) - sIE = interval_end tv endT (Suc t) - sIE \<and>
          (es \<le> sIE \<or> es < interval_end tv endT (Suc t)) \<and> sIE \<le> ee"
        if "Suc t < length tv"
        using nxt [OF that] e1 e2 by simp
      show "covered P0 Q (Suc t)
          (if sIE < es then (es - sIE) / (interval_end tv endT (Suc t) - sIE) else 0)"
        using covered_next [OF Q] e1 by simp
    qed
    have follow: "\<exists>P'. sample_chain tv endT numStates t (ev' # rest') sIS sIE si ee
        (ee + ev_duration ev') Q = Some P' \<and> covered P0 P' (length tv) 0"
      if Q: "covered P0 Q t (if sIS < ee then (ee - sIS) / si else 0)"
        and r: "rest = ev' # rest'" and e: "ee < sIE" for Q ev' rest'
    proof (rule less.hyps)
      show "length tv - t + length rest' < length tv - t + length rest" using r by simp
      show "t \<le> length tv" by (rule less.prems(1))
      show "list_all (\<lambda>ev. 0 \<le> ev_duration ev \<and> 0 \<le> state ev \<and> state ev < int numStates)
          (ev' # rest')" using restok r by simp
      show "ee + ev_duration ev' = ee + ev_duration ev'" by simp
      show "ee + ev_duration ev' + sum_list (map ev_duration rest') = endT"
        using less.prems(4) r by simp
      show "sIS = tv ! t \<and> sIE = interval_end tv endT t \<and> si = sIE - sIS \<and>
          (ee \<le> sIS \<or> ee < sIE) \<and> sIS \<le> ee + ev_duration ev'"
        using sIS sIE si e B restok r by simp
      show "covered P0 Q t (if sIS < ee then (ee - sIS) / si else 0)" by (rule Q)
    qed
    have last_event: "sIE \<le> ee" if "rest = []"
      using that less.prems(4) fin by simp
    consider (b1) "es \<le> sIS" "sIE \<le> ee" | (b2) "es \<le> sIS" "ee < sIE"
      | (b3) "sIS < es" "sIE \<le> ee" | (b4) "sIS < es" "ee < sIE"
      by linarith
    then show ?thesis
    proof cases
      case b1
      have eq: "sample_chain tv endT numStates t (ev # rest) sIS sIE si es ee P =
          sample_chain tv endT numStates (Suc t) (ev # rest) sIE (interval_end tv endT (Suc t))
            (interval_end tv endT (Suc t) - sIE) es ee (add_at P t (nat (state ev)) 1)"
        using True valid b1 by (subst sample_chain.simps) simp
      from less.prems(6) b1 have "covered P0 P t 0" by simp
      from covered_add_at [OF this t0 s0, of 1]
      have "covered P0 (add_at P t (nat (state ev)) 1) t 1" by simp
      from advance [OF this] b1 le show ?thesis unfolding eq by simp
    next
      case b2
      with B have pos: "0 < si" by (simp add: si)
      from b2 last_event obtain ev' rest' where r: "rest = ev' # rest'"
        by (cases rest) auto
      let ?x = "(ee - sIS) / si"
      have eq: "sample_chain tv endT numStates t (ev # rest) sIS sIE si es ee P =
          sample_chain tv endT numStates t (ev' # rest') sIS sIE si ee (ee + ev_duration ev')
            (add_at P t (nat (state ev)) ?x)"
        using True valid b2 pos r by (subst sample_chain.simps) simp
      have x: "0 \<le> ?x" using B pos by simp
      from less.prems(6) b2 have "covered P0 P t 0" by simp
      from covered_add_at [OF this t0 s0 x]
      have "covered P0 (add_at P t (nat (state ev)) ?x) t (if sIS < ee then ?x else 0)"
        using B by (cases "sIS < ee") simp_all
      from follow [OF this r b2(2)] show ?thesis unfolding eq .
    next
      case b3
      with A have lt: "es < sIE" by simp
      with b3 have pos: "0 < si" by (simp add: si)
      let ?x = "(sIE - es) / si"
      have eq: "sample_chain tv endT numStates t (ev # rest) sIS sIE si es ee P =
          sample_chain tv endT numStates (Suc t) (ev # rest) sIE (interval_end tv endT (Suc t))
            (interval_end tv endT (Suc t) - sIE) es ee (add_at P t (nat (state ev)) ?x)"
        using True valid b3 pos by (subst sample_chain.simps) simp
      have x: "0 \<le> ?x" using lt pos by simp
      have one: "(es - sIS) / si + ?x = 1"
        using pos by (simp add: si add_divide_distrib [symmetric])
      from less.prems(6) b3 have "covered P0 P t ((es - sIS) / si)" by simp
      from covered_add_at [OF this t0 s0 x]
      have "covered P0 (add_at P t (nat (state ev)) ?x) t 1" by (simp only: one)
      from advance [OF this] lt b3 show ?thesis unfolding eq by simp
    next
      case b4
      with d less.prems(3) have pos: "0 < si" by (simp add: si)
      from b4 last_event obtain ev' rest' where r: "rest = ev' # rest'"
        by (cases rest) auto
      let ?x = "ev_duration ev / si"
      have eq: "sample_chain tv endT numStates t (ev # rest) sIS sIE si es ee P =
          sample_chain tv endT numStates t (ev' # rest') sIS sIE si ee (ee + ev_duration ev')
            (add_at P t (nat (state ev)) ?x)"
        using True valid b4 pos r by (subst sample_chain.simps) simp
      have x: "0 \<le> ?x" using d pos by simp
      have lt: "sIS < ee" using b4 d less.prems(3) by simp
      have sum: "(es - sIS) / si + ?x = (ee - sIS) / si"
        using less.prems(3) by (simp add: add_divide_distrib [symmetric])
      from less.prems(6) b4 have "covered P0 P t ((es - sIS) / si)" by simp
      from covered_add_at [OF this t0 s0 x]
      have "covered P0 (add_at P t (nat (state ev)) ?x) t (if sIS < ee then (ee - sIS) / si else 0)"
        using lt by (simp only: sum if_True)
      from follow [OF this r b4(2)] show ?thesis unfolding eq .
    qed
  qed
qed

text \<open>After \<open>k\<close> chains every row of \<open>P\<close> sums to \<open>k\<close> and no entry is negative.\<close>

definition counts :: "nat \<Rightarrow> nat \<Rightarrow> real \<Rightarrow> real list list \<Rightarrow> bool" where
  "counts N S k P \<longleftrightarrow>
     has_shape N S P \<and> list_all (\<lambda>row. sum_list row = k \<and> list_all (\<lambda>x. 0 \<le> x) row) P"

lemma sum_list_replicate_zero: "sum_list (replicate S (0::real)) = 0"
  by (induction S) simp_all

lemma counts_Zero: "counts N S 0 (Zero N S)"
  by (simp add: counts_def has_shape_def Zero_def list_all_iff sum_list_replicate_zero)

lemma covered_refl: "covered P P 0 0"
  by (simp add: covered_def)

lemma counts_covered:
  assumes "counts N S k P" and "covered P P' N 0"
  shows "counts N S (k + 1) P'"
proof -
  from assms(1) have len: "length P = N"
    and row: "\<And>r. r < N \<Longrightarrow> length (P ! r) = S \<and> sum_list (P ! r) = k \<and>
      (\<forall>j < S. 0 \<le> P ! r ! j)"
    by (auto simp: counts_def has_shape_def list_all_length)
  from assms(2) len have len': "length P' = N"
    and row': "\<And>r. r < N \<Longrightarrow> length (P' ! r) = length (P ! r) \<and>
      sum_list (P' ! r) = sum_list (P ! r) + 1 \<and> (\<forall>j < length (P ! r). P ! r ! j \<le> P' ! r ! j)"
    by (auto simp: covered_def)
  have "length (P' ! r) = S \<and> sum_list (P' ! r) = k + 1 \<and> (\<forall>j < S. 0 \<le> P' ! r ! j)"
    if "r < N" for r
    using row [OF that] row' [OF that] by (auto intro: order_trans)
  with len' show ?thesis
    by (simp add: counts_def has_shape_def list_all_length)
qed

lemma sample_chains_counts:
  assumes grid: "grid_from_zero tv endT"
  shows "list_all (chain_wf numStates endT) eventChains \<Longrightarrow> counts (length tv) numStates k P \<Longrightarrow>
    \<exists>P'. sample_chains tv endT numStates eventChains P = Some P' \<and>
      counts (length tv) numStates (k + real (length eventChains)) P'"
proof (induction eventChains arbitrary: k P)
  case Nil
  then show ?case by simp
next
  case (Cons eventChain eventChains)
  from grid obtain t0 ts where tv: "tv = t0 # ts" and t0: "t0 = 0"
    by (cases tv) (auto simp: grid_from_zero_def)
  from Cons.prems(1) have wf: "chain_wf numStates endT eventChain"
    and others: "list_all (chain_wf numStates endT) eventChains"
    by simp_all
  from wf obtain ev rest where ch: "eventChain = ev # rest"
    by (cases eventChain) (simp_all add: chain_wf_def)
  from wf have ok: "list_all (\<lambda>ev. 0 \<le> ev_duration ev \<and> 0 \<le> state ev \<and> state ev < int numStates)
      (ev # rest)"
    and total: "sum_list (map ev_duration (ev # rest)) = endT"
    unfolding ch chain_wf_def by blast+
  from Cons.prems(2) have shape: "has_shape (length tv) numStates P" by (simp add: counts_def)
  have "\<exists>P'. sample_chain tv endT numStates 0 (ev # rest) t0 (interval_end tv endT 0)
      (interval_end tv endT 0 - t0) 0 (0 + ev_duration ev) P = Some P' \<and>
      covered P P' (length tv) 0"
  proof (rule sample_chain_covers [OF grid shape])
    show "0 \<le> length tv" by simp
    show "list_all (\<lambda>ev. 0 \<le> ev_duration ev \<and> 0 \<le> state ev \<and> state ev < int numStates)
      (ev # rest)" by (rule ok)
    show "0 + ev_duration ev = 0 + ev_duration ev" by simp
    show "0 + ev_duration ev + sum_list (map ev_duration rest) = endT" using total by simp
    show "t0 = tv ! 0 \<and> interval_end tv endT 0 = interval_end tv endT 0 \<and>
        interval_end tv endT 0 - t0 = interval_end tv endT 0 - t0 \<and>
        (0 \<le> t0 \<or> 0 < interval_end tv endT 0) \<and> t0 \<le> 0 + ev_duration ev"
      using ok by (simp add: tv t0)
    show "covered P P 0 (if t0 < 0 then (0 - t0) / (interval_end tv endT 0 - t0) else 0)"
      using covered_refl by (simp add: t0)
  qed
  then obtain P1 where run: "sample_chain tv endT numStates 0 (ev # rest) t0
      (interval_end tv endT 0) (interval_end tv endT 0 - t0) 0 (0 + ev_duration ev) P = Some P1"
    and cov: "covered P P1 (length tv) 0"
    by blast
  from counts_covered [OF Cons.prems(2) cov]
  have c1: "counts (length tv) numStates (k + 1) P1" .
  have k: "k + 1 + real (length eventChains) = k + real (length (eventChain # eventChains))"
    by simp
  from Cons.IH [OF others c1] obtain P' where
    "sample_chains tv endT numStates eventChains P1 = Some P'"
    "counts (length tv) numStates (k + real (length (eventChain # eventChains))) P'"
    unfolding k by blast
  with run show ?case
    by (simp add: tv ch del: of_nat_Suc)
qed

text \<open>
  On such a grid the function returns for every non-empty list of such chains, every row of
  \<open>P\<close> sums to \<open>1\<close> and every entry lies in \<open>[0, 1]\<close>.
\<close>

lemma getProbabilityFromEventChains_from_zero:
  assumes grid: "grid_from_zero (time sim) (endTime sim)"
    and ne: "eventChains \<noteq> []"
    and wf: "list_all (chain_wf numStates (endTime sim)) eventChains"
  shows "\<exists>P. getProbabilityFromEventChains sim numStates eventChains = Some P \<and>
    has_shape (length (time sim)) numStates P \<and>
    list_all (\<lambda>row. sum_list row = 1 \<and> list_all (\<lambda>x. 0 \<le> x \<and> x \<le> 1) row) P"
proof -
  define n where "n = real (length eventChains)"
  from ne have n: "0 < n" by (simp add: n_def)
  from sample_chains_counts [OF grid wf counts_Zero] obtain P where
    run: "sample_chains (time sim) (endTime sim) numStates eventChains
      (Zero (length (time sim)) numStates) = Some P"
    and c: "counts (length (time sim)) numStates n P"
    by (auto simp: n_def)
  let ?Q = "map (map (\<lambda>x. x / n)) P"
  have res: "getProbabilityFromEventChains sim numStates eventChains = Some ?Q"
    using run ne by (simp add: getProbabilityFromEventChains_def n_def)
  from c have shape: "has_shape (length (time sim)) numStates ?Q"
    by (simp add: counts_def has_shape_def list_all_iff)
  have row: "sum_list (map (\<lambda>x. x / n) row) = 1 \<and>
      list_all (\<lambda>x. 0 \<le> x \<and> x \<le> 1) (map (\<lambda>x. x / n) row)"
    if "row \<in> set P" for row
  proof -
    from c that have s: "sum_list row = n" and nn: "\<forall>x \<in> set row. 0 \<le> x"
      by (auto simp: counts_def list_all_iff)
    have "sum_list (map (\<lambda>x. x / n) row) = sum_list row / n"
      by (induction row) (simp_all add: add_divide_distrib)
    with s n have one: "sum_list (map (\<lambda>x. x / n) row) = 1" by simp
    have "x \<le> n" if "x \<in> set row" for x
      using member_le_sum_list [OF that] nn s by (simp add: list_all_iff)
    with nn n have "\<forall>x \<in> set row. 0 \<le> x / n \<and> x / n \<le> 1" by simp
    with one show ?thesis by (simp add: list_all_iff)
  qed
  then have "list_all (\<lambda>row. sum_list row = 1 \<and> list_all (\<lambda>x. 0 \<le> x \<and> x \<le> 1) row) ?Q"
    by (simp add: list_all_iff)
  with res shape show ?thesis by blast
qed

lemma getProbabilityFromEventChains_from_zero_example:
  "getProbabilityFromEventChains (sim_example\<lparr>time := [0, 1, 2, 3], endTime := 3\<rparr>) 2
       [chain_example] =
     Some [[1 / 2, 1 / 2], [0, 1], [0, 1], [0, 1]] \<and>
   grid_from_zero [0, 1, 2, 3] 3 \<and> chain_wf 2 3 chain_example"
  by code_simp


section \<open>Simulation::monteCarloSimulation\<close>

text \<open>
  \<open>transitionRates\<close> is a sparse matrix: row \<open>r\<close> of \<open>Q\<close> is the list of its stored entries
  \<open>(column, value)\<close> in increasing column order.  \<open>coeff(r, c)\<close> is the stored value or zero;
  an index outside the matrix is an out-of-range read, the result \<open>None\<close>.
\<close>
definition coeff :: "(nat \<times> real) list list \<Rightarrow> int \<Rightarrow> int \<Rightarrow> real option" where
  "coeff Q r c =
     (if 0 \<le> r \<and> r < int (length Q) \<and> 0 \<le> c \<and> c < int (length Q)
      then Some (case map_of (Q ! nat r) (nat c) of None \<Rightarrow> 0 | Some v \<Rightarrow> v)
      else None)"

definition toDense :: "(nat \<times> real) list list \<Rightarrow> real list list" where
  "toDense Q =
     map (\<lambda>r. map (\<lambda>c. case map_of (Q ! r) c of None \<Rightarrow> 0 | Some v \<Rightarrow> v) [0..<length Q])
       [0..<length Q]"

text \<open>Addition and \<open>>=\<close> on doubles with the special values: \<open>ptot += it.value() / kout\<close> and
  \<open>ptot >= prnd\<close> of the selection of the next state, where \<open>kout\<close> may be zero.\<close>

fun ieee_add :: "ieee \<Rightarrow> ieee \<Rightarrow> ieee" where
  "ieee_add (Finite a) (Finite b) = Finite (a + b)"
| "ieee_add NaN _ = NaN"
| "ieee_add _ NaN = NaN"
| "ieee_add PlusInfinity MinusInfinity = NaN"
| "ieee_add MinusInfinity PlusInfinity = NaN"
| "ieee_add PlusInfinity _ = PlusInfinity"
| "ieee_add _ PlusInfinity = PlusInfinity"
| "ieee_add MinusInfinity _ = MinusInfinity"
| "ieee_add _ MinusInfinity = MinusInfinity"

fun ieee_ge :: "ieee \<Rightarrow> real \<Rightarrow> bool" where
  "ieee_ge (Finite a) x = (a \<ge> x)"
| "ieee_ge PlusInfinity x = True"
| "ieee_ge MinusInfinity x = False"
| "ieee_ge NaN x = False"

text \<open>\<open>epochIter->start + epochIter->duration\<close>, and
  \<open>kout = -epochIter->uniqueEpoch->transitionRates.coeff(event.state, event.state)\<close>.\<close>

definition epoch_end :: "Epoch \<Rightarrow> real" where
  "epoch_end e = start e + duration e"

definition kout_of :: "Epoch list \<Rightarrow> Epoch \<Rightarrow> int \<Rightarrow> real option" where
  "kout_of heap e st =
     (case deref heap e of
        None \<Rightarrow> None
      | Some u \<Rightarrow> map_option uminus (coeff (transitionRates u) st st))"

text \<open>
  The random number generator is the stream \<open>draw\<close> of the values that the successive calls
  of the distributions return (\<open>randomUniform\<close> and the exponential
  \<open>randomStateLifetimes[state]\<close>), \<open>pos\<close> the number of values consumed so far.
  \<open>kout < epsilon ? endTime : randomStateLifetimes[event.state](randomNumberGenerator)\<close> with
  \<open>epsilon = 5 * DBL_EPSILON\<close>:
\<close>

definition lifetime_draw :: "(nat \<Rightarrow> real) \<Rightarrow> real \<Rightarrow> real \<Rightarrow> nat \<Rightarrow> real \<times> nat" where
  "lifetime_draw draw endT kout pos =
     (if kout < dbl_epsilon * 5 then (endT, pos) else (draw pos, Suc pos))"

text \<open>The starting state: the first \<open>i\<close> with \<open>startingProbability[0] + ... +
  startingProbability[i] > prnd\<close>, or \<open>-1\<close>.\<close>

fun pick_start :: "real list \<Rightarrow> real \<Rightarrow> nat \<Rightarrow> real \<Rightarrow> int" where
  "pick_start [] prnd i ptot = - 1"
| "pick_start (p # ps) prnd i ptot =
     (if ptot + p > prnd then int i else pick_start ps prnd (Suc i) (ptot + p))"

text \<open>
  The next state.  \<open>QT\<close> is the transpose of \<open>Q\<close>, and the \<open>InnerIterator\<close> over column
  \<open>event.state\<close> of \<open>QT\<close> visits the stored entries of row \<open>event.state\<close> of \<open>Q\<close>, \<open>it.row()\<close>
  being their column in \<open>Q\<close>: the model keeps the rows of \<open>Q\<close> under the name \<open>QT\<close>.
\<close>

fun next_state :: "(nat \<times> real) list \<Rightarrow> int \<Rightarrow> real \<Rightarrow> real \<Rightarrow> ieee \<Rightarrow> int" where
  "next_state [] st kout prnd ptot = st"
| "next_state (jv # entries) st kout prnd ptot =
     (if int (fst jv) \<noteq> st then
        (if ieee_ge (ieee_add ptot (ieee_div (snd jv) kout)) prnd then int (fst jv)
         else next_state entries st kout prnd (ieee_add ptot (ieee_div (snd jv) kout)))
      else next_state entries st kout prnd ptot)"

text \<open>
  The inner loop \<open>while(eventChainDuration + lifetime > epochIter->start + epochIter->duration)\<close>:
  \<open>cur\<close> is \<open>*epochIter\<close> and \<open>rest\<close> the epochs after it.  The result is
  \<open>(lifetime, kout, epochIter, epochChanged, pos)\<close>, with \<open>None\<close> for \<open>epochIter == epochs.end()\<close>.
\<close>

fun extend_lifetime ::
  "Epoch list \<Rightarrow> (nat \<Rightarrow> real) \<Rightarrow> real \<Rightarrow> int \<Rightarrow> real \<Rightarrow> Epoch \<Rightarrow> Epoch list \<Rightarrow> real \<Rightarrow> real \<Rightarrow>
   bool \<Rightarrow> nat \<Rightarrow> (real \<times> real \<times> (Epoch \<times> Epoch list) option \<times> bool \<times> nat) option" where
  "extend_lifetime heap draw endT st ecd cur [] lifetime kout epochChanged pos =
     (if ecd + lifetime > epoch_end cur
      then Some (epoch_end cur - ecd, kout, None, epochChanged, pos)
      else Some (lifetime, kout, Some (cur, []), epochChanged, pos))"
| "extend_lifetime heap draw endT st ecd cur (nxt # rest) lifetime kout epochChanged pos =
     (if ecd + lifetime > epoch_end cur then
        (case kout_of heap nxt st of
           None \<Rightarrow> None
         | Some kout' \<Rightarrow>
             extend_lifetime heap draw endT st ecd nxt rest
               (epoch_end cur - ecd + fst (lifetime_draw draw endT kout' pos)) kout' True
               (snd (lifetime_draw draw endT kout' pos)))
      else Some (lifetime, kout, Some (cur, nxt # rest), epochChanged, pos))"

text \<open>
  The loop \<open>while(eventChainDuration < endTime)\<close> of one run.  Nothing bounds its number of
  iterations (a lifetime may be zero), so the model takes fuel: \<open>None\<close> when the fuel is used
  up before the loop ends, and also for an out-of-range read.  No abort.
\<close>

fun chain_loop ::
  "nat \<Rightarrow> Epoch list \<Rightarrow> (nat \<Rightarrow> real) \<Rightarrow> real \<Rightarrow> int \<Rightarrow> real \<Rightarrow> Epoch \<Rightarrow> Epoch list \<Rightarrow>
   (nat \<times> real) list list \<Rightarrow> nat \<Rightarrow> MonteCarloEvent list \<Rightarrow> (MonteCarloEvent list \<times> nat) option" where
  "chain_loop 0 heap draw endT st ecd cur rest QT pos eventChain =
     (if ecd < endT then None else Some (eventChain, pos))"
| "chain_loop (Suc fuel) heap draw endT st ecd cur rest QT pos eventChain =
     (if ecd < endT then
        (case kout_of heap cur st of
           None \<Rightarrow> None
         | Some kout0 \<Rightarrow>
             (case extend_lifetime heap draw endT st ecd cur rest
                     (fst (lifetime_draw draw endT kout0 pos)) kout0 False
                     (snd (lifetime_draw draw endT kout0 pos)) of
                None \<Rightarrow> None
              | Some (lifetime, kout, None, epochChanged, pos') \<Rightarrow>
                  Some (eventChain @ [\<lparr>state = st, ev_duration = endT - ecd\<rparr>], pos')
              | Some (lifetime, kout, Some (cur', rest'), epochChanged, pos') \<Rightarrow>
                  (case (if epochChanged then map_option transitionRates (deref heap cur')
                         else Some QT) of
                     None \<Rightarrow> None
                   | Some QT' \<Rightarrow>
                       if ecd + lifetime < endT then
                         (if 0 \<le> st \<and> st < int (length QT') then
                            chain_loop fuel heap draw endT
                              (next_state (QT' ! nat st) st kout (draw pos') (Finite 0))
                              (ecd + lifetime) cur' rest' QT' (Suc pos')
                              (eventChain @ [\<lparr>state = st, ev_duration = lifetime\<rparr>])
                          else None)
                       else
                         chain_loop fuel heap draw endT st (ecd + lifetime) cur' rest' QT' pos'
                           (eventChain @ [\<lparr>state = st, ev_duration = lifetime\<rparr>]))))
      else Some (eventChain, pos))"

text \<open>One run: the starting state (\<open>numStates - 1\<close> when none was picked), then the loop from
  \<open>eventChainDuration = 0\<close> at the first epoch.\<close>

definition monteCarloRun ::
  "nat \<Rightarrow> Epoch list \<Rightarrow> (nat \<Rightarrow> real) \<Rightarrow> Epoch list \<Rightarrow> real \<Rightarrow> real list \<Rightarrow> nat \<Rightarrow> nat \<Rightarrow>
   (MonteCarloEvent list \<times> nat) option" where
  "monteCarloRun fuel heap draw es endT startingProbability numStates pos =
     (case es of
        [] \<Rightarrow> None
      | e # rest \<Rightarrow>
          if length startingProbability < numStates then None
          else
            (case deref heap e of
               None \<Rightarrow> None
             | Some u \<Rightarrow>
                 chain_loop fuel heap draw endT
                   (let s = pick_start (take numStates startingProbability) (draw pos) 0 0
                    in if s = - 1 then int numStates - 1 else s)
                   0 e rest (transitionRates u) (Suc pos) []))"

text \<open>The \<open>numRuns\<close> runs, one after the other on the same generator.\<close>

fun monteCarlo_runs ::
  "nat \<Rightarrow> nat \<Rightarrow> Epoch list \<Rightarrow> (nat \<Rightarrow> real) \<Rightarrow> Epoch list \<Rightarrow> real \<Rightarrow> real list \<Rightarrow> nat \<Rightarrow> nat \<Rightarrow>
   (MonteCarloEvent list list \<times> nat) option" where
  "monteCarlo_runs 0 fuel heap draw es endT startingProbability numStates pos = Some ([], pos)"
| "monteCarlo_runs (Suc numRuns) fuel heap draw es endT startingProbability numStates pos =
     (case monteCarloRun fuel heap draw es endT startingProbability numStates pos of
        None \<Rightarrow> None
      | Some (eventChain, pos') \<Rightarrow>
          (case monteCarlo_runs numRuns fuel heap draw es endT startingProbability numStates pos' of
             None \<Rightarrow> None
           | Some (eventChains, pos'') \<Rightarrow> Some (eventChain # eventChains, pos'')))"

text \<open>
  The whole function: \<open>events\<close> and \<open>probability\<close> are resized to hold entry
  \<open>variableSetIndex\<close>, the new chains are appended to the chains of that entry (after
  \<open>eventChains.clear()\<close> unless \<open>accumulateRuns\<close>), and \<open>sampleRuns\<close> rebuilds the probability
  from all of them.  Eigen's \<open>inverse()\<close>, used by \<open>equilibriumProbability\<close>, is the parameter
  \<open>inverse_of\<close>.
\<close>

definition previous_chains :: "bool \<Rightarrow> nat \<Rightarrow> Simulation \<Rightarrow> MonteCarloEvent list list" where
  "previous_chains accumulateRuns variableSetIndex sim =
     (if accumulateRuns \<and> variableSetIndex < length (events sim)
      then events sim ! variableSetIndex else [])"

definition monteCarloSimulation ::
  "(real list list \<Rightarrow> real list list) \<Rightarrow> nat \<Rightarrow> Epoch list \<Rightarrow> (nat \<Rightarrow> real) \<Rightarrow> nat \<Rightarrow>
   real list \<Rightarrow> nat \<Rightarrow> bool \<Rightarrow> bool \<Rightarrow> bool \<Rightarrow> nat \<Rightarrow> Simulation \<Rightarrow>
   (Simulation \<times> nat) option" where
  "monteCarloSimulation inverse_of fuel heap draw pos startingProbability numRuns accumulateRuns
       sampleRuns startEquilibrated variableSetIndex sim =
     (let numStates = length startingProbability;
          prev = previous_chains accumulateRuns variableSetIndex sim;
          resized = events sim @ replicate (Suc variableSetIndex - length (events sim)) []
      in
      case (if startEquilibrated then
              (case epochs sim of
                 [] \<Rightarrow> None
               | e # _ \<Rightarrow>
                   (case deref heap e of
                      None \<Rightarrow> None
                    | Some u \<Rightarrow> equilibriumProbability inverse_of (toDense (transitionRates u))))
            else Some startingProbability) of
        None \<Rightarrow> None
      | Some p \<Rightarrow>
          (case monteCarlo_runs numRuns fuel heap draw (epochs sim) (endTime sim) p numStates pos of
             None \<Rightarrow> None
           | Some (eventChains, pos') \<Rightarrow>
               if sampleRuns then
                 (case getProbabilityFromEventChains sim numStates (prev @ eventChains) of
                    None \<Rightarrow> None
                  | Some P \<Rightarrow>
                      Some (sim\<lparr>events := resized[variableSetIndex := prev @ eventChains],
                                probability :=
                                  (probability sim @
                                   replicate (Suc variableSetIndex - length (probability sim))
                                     (Zero (length (time sim)) numStates))
                                  [variableSetIndex := P]\<rparr>, pos'))
               else Some (sim\<lparr>events := resized[variableSetIndex := prev @ eventChains]\<rparr>, pos')))"

subsection \<open>Durations of the events of a chain\<close>

text \<open>
  The epochs end one after the other, none after \<open>endTime\<close>, and the first does not end
  before time zero, where the clock \<open>eventChainDuration\<close> of a chain starts.  Then every chain
  that a run returns has events of non-negative duration whose durations sum to \<open>endTime\<close>.
\<close>

definition epochs_cover :: "Epoch list \<Rightarrow> real \<Rightarrow> bool" where
  "epochs_cover es endT \<longleftrightarrow>
     es \<noteq> [] \<and> sorted (map epoch_end es) \<and> list_all (\<lambda>e. epoch_end e \<le> endT) es \<and>
     0 \<le> epoch_end (hd es)"

definition chain_ok :: "real \<Rightarrow> MonteCarloEvent list \<Rightarrow> bool" where
  "chain_ok endT eventChain \<longleftrightarrow>
     sum_list (map ev_duration eventChain) = endT \<and> list_all (\<lambda>ev. 0 \<le> ev_duration ev) eventChain"

lemma lifetime_draw_nonneg:
  "(\<And>n. 0 \<le> draw n) \<Longrightarrow> 0 \<le> endT \<Longrightarrow> 0 \<le> fst (lifetime_draw draw endT kout pos)"
  by (simp add: lifetime_draw_def)

lemma extend_lifetime_inv:
  assumes draws: "\<And>n. 0 \<le> draw n" and endT: "0 \<le> endT"
  shows "extend_lifetime heap draw endT st ecd cur rest lifetime kout changed pos =
      Some (lifetime', kout', Some (cur', rest'), changed', pos') \<Longrightarrow>
    0 \<le> lifetime \<Longrightarrow> ecd \<le> epoch_end cur \<Longrightarrow> sorted (map epoch_end (cur # rest)) \<Longrightarrow>
    list_all (\<lambda>e. epoch_end e \<le> endT) (cur # rest) \<Longrightarrow>
    0 \<le> lifetime' \<and> ecd + lifetime' \<le> epoch_end cur' \<and> sorted (map epoch_end (cur' # rest')) \<and>
    list_all (\<lambda>e. epoch_end e \<le> endT) (cur' # rest')"
proof (induction rest arbitrary: cur lifetime kout changed pos)
  case Nil
  then show ?case by (auto split: if_splits)
next
  case (Cons nxt rest)
  show ?case
  proof (cases "ecd + lifetime > epoch_end cur")
    case False
    with Cons.prems show ?thesis by auto
  next
    case True
    with Cons.prems(1) obtain k where k: "kout_of heap nxt st = Some k"
      and rec: "extend_lifetime heap draw endT st ecd nxt rest
          (epoch_end cur - ecd + fst (lifetime_draw draw endT k pos)) k True
          (snd (lifetime_draw draw endT k pos)) =
        Some (lifetime', kout', Some (cur', rest'), changed', pos')"
      by (auto split: option.splits)
    have 1: "0 \<le> epoch_end cur - ecd + fst (lifetime_draw draw endT k pos)"
      using Cons.prems(3) lifetime_draw_nonneg [OF draws endT] by simp
    have 2: "ecd \<le> epoch_end nxt"
      using Cons.prems(3,4) by simp
    have 3: "sorted (map epoch_end (nxt # rest))"
      using Cons.prems(4) by simp
    have 4: "list_all (\<lambda>e. epoch_end e \<le> endT) (nxt # rest)"
      using Cons.prems(5) by simp
    show ?thesis by (rule Cons.IH [OF rec 1 2 3 4])
  qed
qed

lemma chain_loop_ok:
  assumes draws: "\<And>n. 0 \<le> draw n"
  shows "chain_loop fuel heap draw endT st ecd cur rest QT pos eventChain = Some (result, pos') \<Longrightarrow>
    sum_list (map ev_duration eventChain) = ecd \<Longrightarrow>
    list_all (\<lambda>ev. 0 \<le> ev_duration ev) eventChain \<Longrightarrow>
    ecd \<le> epoch_end cur \<Longrightarrow> sorted (map epoch_end (cur # rest)) \<Longrightarrow>
    list_all (\<lambda>e. epoch_end e \<le> endT) (cur # rest) \<Longrightarrow>
    chain_ok endT result"
proof (induction fuel arbitrary: st ecd cur rest QT pos eventChain)
  case 0
  then have "\<not> ecd < endT" and res: "result = eventChain" by (auto split: if_splits)
  moreover from "0.prems"(4,6) have "ecd \<le> endT" by simp
  ultimately have "ecd = endT" by simp
  with "0.prems"(2,3) res show ?case by (simp add: chain_ok_def)
next
  case (Suc fuel)
  from Suc.prems(4,6) have le: "ecd \<le> endT" by simp
  have nonneg: "0 \<le> ecd"
    using Suc.prems(2,3) by (auto simp: list_all_iff intro!: sum_list_nonneg)
  show ?case
  proof (cases "ecd < endT")
    case False
    with le have "ecd = endT" by simp
    moreover from False Suc.prems(1) have "result = eventChain" by simp
    ultimately show ?thesis using Suc.prems(2,3) by (simp add: chain_ok_def)
  next
    case True
    with nonneg have endT: "0 \<le> endT" by simp
    from True Suc.prems(1) obtain kout0 where k0: "kout_of heap cur st = Some kout0"
      by (auto split: option.splits)
    let ?l0 = "fst (lifetime_draw draw endT kout0 pos)"
    let ?p0 = "snd (lifetime_draw draw endT kout0 pos)"
    from True Suc.prems(1) k0 obtain lifetime kout nxt changed pos1 where
      ext: "extend_lifetime heap draw endT st ecd cur rest ?l0 kout0 False ?p0 =
        Some (lifetime, kout, nxt, changed, pos1)"
      by (auto split: option.splits)
    show ?thesis
    proof (cases nxt)
      case None
      with True Suc.prems(1) k0 ext
      have "result = eventChain @ [\<lparr>state = st, ev_duration = endT - ecd\<rparr>]" by simp
      with True Suc.prems(2,3) show ?thesis by (simp add: chain_ok_def)
    next
      case (Some cr)
      obtain cur' rest' where cr: "cr = (cur', rest')" by (cases cr)
      note ext' = ext [unfolded Some cr]
      from extend_lifetime_inv [OF draws endT ext' lifetime_draw_nonneg [OF draws endT]
          Suc.prems(4) Suc.prems(5) Suc.prems(6)]
      have l: "0 \<le> lifetime" and e: "ecd + lifetime \<le> epoch_end cur'"
        and s: "sorted (map epoch_end (cur' # rest'))"
        and a: "list_all (\<lambda>e. epoch_end e \<le> endT) (cur' # rest')"
        by simp_all
      let ?chain = "eventChain @ [\<lparr>state = st, ev_duration = lifetime\<rparr>]"
      have sum: "sum_list (map ev_duration ?chain) = ecd + lifetime"
        using Suc.prems(2) by simp
      have pos: "list_all (\<lambda>ev. 0 \<le> ev_duration ev) ?chain"
        using Suc.prems(3) l by simp
      from True Suc.prems(1) k0 ext' obtain st' QT' pos2 where
        "chain_loop fuel heap draw endT st' (ecd + lifetime) cur' rest' QT' pos2 ?chain =
          Some (result, pos')"
        by (auto split: option.splits if_splits)
      then show ?thesis by (rule Suc.IH [OF _ sum pos e s a])
    qed
  qed
qed

lemma monteCarloRun_ok:
  assumes draws: "\<And>n. 0 \<le> draw n" and cover: "epochs_cover es endT"
    and run: "monteCarloRun fuel heap draw es endT startingProbability numStates pos =
      Some (eventChain, pos')"
  shows "chain_ok endT eventChain"
proof -
  from cover obtain e rest where es: "es = e # rest" by (cases es) (auto simp: epochs_cover_def)
  from cover es have e0: "(0::real) \<le> epoch_end e" and s: "sorted (map epoch_end (e # rest))"
    and a: "list_all (\<lambda>e. epoch_end e \<le> endT) (e # rest)"
    by (simp_all add: epochs_cover_def)
  from run es obtain st QT where
    loop: "chain_loop fuel heap draw endT st 0 e rest QT (Suc pos) [] = Some (eventChain, pos')"
    by (auto simp: monteCarloRun_def split: if_splits option.splits)
  show ?thesis
    by (rule chain_loop_ok [OF draws loop _ _ e0 s a]) simp_all
qed

lemma monteCarlo_runs_ok:
  assumes draws: "\<And>n. 0 \<le> draw n" and cover: "epochs_cover es endT"
  shows "monteCarlo_runs numRuns fuel heap draw es endT startingProbability numStates pos =
      Some (eventChains, pos') \<Longrightarrow>
    length eventChains = numRuns \<and> list_all (chain_ok endT) eventChains"
proof (induction numRuns arbitrary: pos eventChains)
  case 0
  then show ?case by simp
next
  case (Suc numRuns)
  from Suc.prems obtain eventChain pos1 others where
    run: "monteCarloRun fuel heap draw es endT startingProbability numStates pos =
      Some (eventChain, pos1)"
    and rest: "monteCarlo_runs numRuns fuel heap draw es endT startingProbability numStates pos1 =
      Some (others, pos')"
    and res: "eventChains = eventChain # others"
    by (auto split: option.splits)
  from monteCarloRun_ok [OF draws cover run] Suc.IH [OF rest] res show ?case by simp
qed

lemma monteCarloSimulation_chains_from_zero:
  assumes draws: "\<And>n. 0 \<le> draw n" and cover: "epochs_cover (epochs sim) (endTime sim)"
    and run: "monteCarloSimulation inverse_of fuel heap draw pos startingProbability numRuns
      accumulateRuns sampleRuns startEquilibrated variableSetIndex sim = Some (sim', pos')"
  shows "\<exists>eventChains. length eventChains = numRuns \<and>
    list_all (chain_ok (endTime sim)) eventChains \<and>
    events sim' ! variableSetIndex =
      previous_chains accumulateRuns variableSetIndex sim @ eventChains"
proof -
  from run obtain p eventChains where
    runs: "monteCarlo_runs numRuns fuel heap draw (epochs sim) (endTime sim) p
      (length startingProbability) pos = Some (eventChains, pos')"
    and ev: "events sim' =
      (events sim @ replicate (Suc variableSetIndex - length (events sim)) [])
        [variableSetIndex := previous_chains accumulateRuns variableSetIndex sim @ eventChains]"
    by (auto simp: monteCarloSimulation_def Let_def split: option.splits if_splits)
  have "variableSetIndex <
      length (events sim @ replicate (Suc variableSetIndex - length (events sim)) [])"
    by simp
  with ev have "events sim' ! variableSetIndex =
      previous_chains accumulateRuns variableSetIndex sim @ eventChains"
    by (simp only: nth_list_update_eq)
  with monteCarlo_runs_ok [OF draws cover runs] show ?thesis by blast
qed

text \<open>
  The epochs that \<open>findEpochsDiscretizedToSamplePoints\<close> builds on a sorted grid that starts
  at or after time zero and does not go beyond \<open>endTime\<close> are of that kind: a closed epoch ends
  at the sample that closed it, the last one at \<open>endTime\<close>.
\<close>

definition ends_inv :: "real \<Rightarrow> real \<Rightarrow> Epoch list \<Rightarrow> bool" where
  "ends_inv lo hi es \<longleftrightarrow>
     es \<noteq> [] \<and> sorted (map epoch_end (butlast es)) \<and>
     list_all (\<lambda>e. lo \<le> epoch_end e \<and> epoch_end e \<le> hi) (butlast es)"

lemma ends_inv_mono: "ends_inv lo hi es \<Longrightarrow> hi \<le> hi' \<Longrightarrow> ends_inv lo hi' es"
  by (auto simp: ends_inv_def list_all_iff)

lemma ends_inv_push:
  assumes "ends_inv lo hi es" and "hi \<le> t" and "lo \<le> t"
  shows "ends_inv lo t (close_back (\<lambda>x. x) t i es @ [e])"
proof -
  from assms(1) obtain cl cur where es: "es = cl @ [cur]"
    by (auto simp: ends_inv_def) (metis append_butlast_last_id)
  let ?cur = "cur\<lparr>duration := t - start cur, numPts := i - firstPt cur\<rparr>"
  have cb: "close_back (\<lambda>x. x) t i es = cl @ [?cur]"
    by (simp add: close_back_def es)
  have e: "epoch_end ?cur = t" by (simp add: epoch_end_def)
  from assms(1) have s: "sorted (map epoch_end cl)"
    and a: "list_all (\<lambda>e. lo \<le> epoch_end e \<and> epoch_end e \<le> hi) cl"
    by (simp_all add: ends_inv_def es)
  from a assms(2) have le: "\<forall>x \<in> set cl. epoch_end x \<le> t" by (auto simp: list_all_iff)
  from a assms(2) have a': "list_all (\<lambda>e. lo \<le> epoch_end e \<and> epoch_end e \<le> t) cl"
    by (auto simp: list_all_iff)
  show ?thesis
    unfolding cb ends_inv_def using s le a' e assms(3)
    by (simp add: butlast_append sorted_append)
qed

lemma ends_inv_fold:
  assumes "sorted tv" and "time sim = tv" and "b \<le> length tv" and "0 < b"
    and "ends_inv (tv ! 0) (tv ! 0) es"
  shows "ends_inv (tv ! 0) (tv ! (b - 1)) (fold (epochs_step (\<lambda>x. x) sim) [1..<b] es)"
  using assms(3,4)
proof (induction b)
  case 0
  then show ?case by simp
next
  case (Suc b)
  show ?case
  proof (cases "b = 0")
    case True
    with assms(5) show ?thesis by simp
  next
    case False
    with Suc have IH: "ends_inv (tv ! 0) (tv ! (b - 1)) (fold (epochs_step (\<lambda>x. x) sim) [1..<b] es)"
      by simp
    from False Suc.prems assms(1) have m: "tv ! (b - 1) \<le> tv ! b" and l: "tv ! 0 \<le> tv ! b"
      by (auto intro!: sorted_nth_mono)
    from False have upt: "[1..<Suc b] = [1..<b] @ [b]" by simp
    show ?thesis
      unfolding upt fold_append comp_def fold_simps
      using ends_inv_push [OF IH m l] ends_inv_mono [OF IH m]
      by (simp add: epochs_step_def assms(2))
  qed
qed

lemma findEpochs_epochs_cover:
  assumes run: "findEpochsDiscretizedToSamplePoints (\<lambda>x. x) sim = Some sim'"
    and sorted: "sorted (time sim)" and t0: "0 \<le> time sim ! 0"
    and fin: "last (time sim) \<le> endTime sim"
  shows "epochs_cover (epochs sim') (endTime sim)"
proof -
  let ?tv = "time sim"
  define es0 where "es0 = fold (epochs_step (\<lambda>x. x) sim) [1..<length ?tv] [open_epoch sim 0]"
  from run have ne: "?tv \<noteq> []"
    and es': "epochs sim' = close_back (\<lambda>x. x) (endTime sim) (int (length ?tv)) es0"
    unfolding es0_def
    by (auto simp: findEpochsDiscretizedToSamplePoints_def split: if_splits)
  have init: "ends_inv (?tv ! 0) (?tv ! 0) [open_epoch sim 0]"
    by (simp add: ends_inv_def)
  from ne have len: "0 < length ?tv" by simp
  have inv: "ends_inv (?tv ! 0) (?tv ! (length ?tv - 1)) es0"
    unfolding es0_def by (rule ends_inv_fold [OF sorted refl le_refl len init])
  then obtain cl cur where es: "es0 = cl @ [cur]"
    by (auto simp: ends_inv_def) (metis append_butlast_last_id)
  let ?cur = "cur\<lparr>duration := endTime sim - start cur,
    numPts := int (length ?tv) - firstPt cur\<rparr>"
  have cb: "epochs sim' = cl @ [?cur]"
    by (simp add: es' close_back_def es)
  have e: "epoch_end ?cur = endTime sim" by (simp add: epoch_end_def)
  have hi: "?tv ! (length ?tv - 1) \<le> endTime sim"
    using fin ne by (simp add: last_conv_nth)
  have lo: "?tv ! 0 \<le> ?tv ! (length ?tv - 1)"
    using sorted ne by (auto intro!: sorted_nth_mono)
  from inv have s: "sorted (map epoch_end cl)"
    and a: "list_all (\<lambda>e. ?tv ! 0 \<le> epoch_end e \<and> epoch_end e \<le> ?tv ! (length ?tv - 1)) cl"
    by (simp_all add: ends_inv_def es)
  from a hi have le: "\<forall>x \<in> set cl. epoch_end x \<le> endTime sim" by (auto simp: list_all_iff)
  from a t0 have ge: "\<forall>x \<in> set cl. 0 \<le> epoch_end x" by (auto simp: list_all_iff)
  have hd0: "0 \<le> epoch_end (hd (cl @ [?cur]))"
  proof (cases cl)
    case Nil
    with e t0 lo hi show ?thesis by simp
  next
    case (Cons c cs)
    with ge show ?thesis by simp
  qed
  show ?thesis
    unfolding epochs_cover_def cb using s le e hd0
    by (simp add: sorted_append list_all_iff)
qed

subsection \<open>A protocol that starts before time zero\<close>

text \<open>
  A protocol with start \<open>-2\<close>, duration \<open>3\<close> and sample interval \<open>1\<close>: samples at
  \<open>[-2, -1, 0, 1]\<close>, \<open>endTime = 1\<close>.  The stimulus steps at \<open>-1\<close>: the epochs are \<open>[-2, -1)\<close> and
  \<open>[-1, 1)\<close>, as \<open>findEpochsDiscretizedToSamplePoints\<close> builds them.  Two
  states with rates \<open>1\<close> and \<open>2\<close>, start in state \<open>0\<close>; the generator returns \<open>1/2\<close> except for the
  lifetimes \<open>3/10\<close> (third value) and \<open>2\<close> (fifth value).
\<close>

definition heap_early :: "Epoch list" where
  "heap_early =
     [(epoch_example 0 0 0 0 0)\<lparr>transitionRates := [[(0, - 1), (1, 1)], [(0, 2), (1, - 2)]]\<rparr>,
      (epoch_example 0 0 0 0 5)\<lparr>transitionRates := [[(0, - 1), (1, 1)], [(0, 2), (1, - 2)]]\<rparr>]"

definition sim_early_start :: Simulation where
  "sim_early_start =
     sim_example\<lparr>time := [- 2, - 1, 0, 1], endTime := 1, weight := [1, 1, 1, 1],
       sim_stimuli := [(''V'', [0, 5, 5, 5])],
       epochs := [(epoch_example (- 2) 1 0 1 0)\<lparr>uniqueEpoch := Some 0\<rparr>,
                  (epoch_example (- 1) 2 1 3 5)\<lparr>uniqueEpoch := Some 1\<rparr>]\<rparr>"

definition draw_example :: "nat \<Rightarrow> real" where
  "draw_example n = (if n = 2 then 3 / 10 else if n = 4 then 2 else 1 / 2)"

text \<open>
  C3 (the code fails the claim).  \<open>endTime = 1 > 0\<close> and two epochs.  The clock of the chain
  starts at \<open>0\<close>, after the end \<open>-1\<close> of the first epoch: the first lifetime \<open>1/2\<close> is
  "truncated to the end of the epoch", \<open>-1 - 0 = -1\<close>, the lifetime \<open>3/10\<close> drawn in the second
  epoch is added, and the first event of the chain has the duration \<open>-7/10\<close>.  The durations
  still sum to \<open>endTime\<close>.
\<close>

theorem monteCarloSimulation_early_start:
  "monteCarloSimulation (\<lambda>m. m) 5 heap_early draw_example 0 [1, 0] 1 False False False 0
       sim_early_start =
     Some (sim_early_start\<lparr>events :=
        [[[\<lparr>state = 0, ev_duration = - (7 / 10)\<rparr>, \<lparr>state = 1, ev_duration = 17 / 10\<rparr>]]]\<rparr>, 5) \<and>
   map_option epochs
     (findEpochsDiscretizedToSamplePoints (\<lambda>x. x) (sim_early_start\<lparr>epochs := []\<rparr>)) =
     Some (map (\<lambda>e. e\<lparr>uniqueEpoch := None\<rparr>) (epochs sim_early_start)) \<and>
   0 < endTime sim_early_start \<and> epochs sim_early_start \<noteq> [] \<and>
   \<not> 0 \<le> ev_duration \<lparr>state = 0, ev_duration = - (7 / 10)\<rparr>"
  by code_simp

text \<open>The same protocol with start \<open>0\<close> (samples at \<open>[0, 1, 2, 3]\<close>, \<open>endTime = 3\<close>), every value
  of the generator \<open>1/2\<close>:\<close>

definition sim_from_zero :: Simulation where
  "sim_from_zero =
     sim_example\<lparr>time := [0, 1, 2, 3], weight := [1, 1, 1, 1],
       sim_stimuli := [(''V'', [0, 5, 5, 5])],
       epochs := [(epoch_example 0 1 0 1 0)\<lparr>uniqueEpoch := Some 0\<rparr>,
                  (epoch_example 1 2 1 3 5)\<lparr>uniqueEpoch := Some 1\<rparr>]\<rparr>"

lemma monteCarloSimulation_from_zero_example:
  "monteCarloSimulation (\<lambda>m. m) 10 heap_early (\<lambda>n. 1 / 2) 0 [1, 0] 1 False False False 0
       sim_from_zero =
     Some (sim_from_zero\<lparr>events :=
        [[[\<lparr>state = 0, ev_duration = 1 / 2\<rparr>, \<lparr>state = 1, ev_duration = 1 / 2\<rparr>,
           \<lparr>state = 0, ev_duration = 1 / 2\<rparr>, \<lparr>state = 1, ev_duration = 1 / 2\<rparr>,
           \<lparr>state = 0, ev_duration = 1 / 2\<rparr>, \<lparr>state = 1, ev_duration = 1 / 2\<rparr>]]]\<rparr>, 13) \<and>
   epochs_cover (epochs sim_from_zero) (endTime sim_from_zero)"
  by code_simp

subsection \<open>A protocol that starts after time zero\<close>

text \<open>
  The protocol \<open>sim_late_start\<close> (start \<open>1\<close>, duration \<open>2\<close>, sample interval \<open>1\<close>, the stimulus
  stepping at \<open>2\<close>) with \<open>sampleRuns\<close>: the run yields the chain \<open>chain_example\<close>, whose events
  are counted from time \<open>0\<close>, and the probability sampled from it has the entry \<open>-1/2\<close>.
\<close>

definition draw_late :: "nat \<Rightarrow> real" where
  "draw_late n = (if n = 3 then 2 else if n = 4 then 1 else 1 / 2)"

lemma monteCarloSimulation_late_start:
  "monteCarloSimulation (\<lambda>m. m) 5 heap_early draw_late 0 [1, 0] 1 False True False 0
       sim_late_start =
     Some (sim_late_start\<lparr>events := [[chain_example]],
             probability := [[[- (1 / 2), 1], [0, 1], [0, 1]]]\<rparr>, 5) \<and>
   map_option epochs
     (findEpochsDiscretizedToSamplePoints (\<lambda>x. x) (sim_late_start\<lparr>epochs := []\<rparr>)) =
     Some (map (\<lambda>e. e\<lparr>uniqueEpoch := None\<rparr>) (epochs sim_late_start))"
  by code_simp

end
